theory Spec2Isabelle
  imports Complex_Main "HOL-Library.Sublist"
begin

section \<open>Numbers\<close>

text \<open>
  A JavaScript number is a binary64 value: not a number, an infinity, or a finite
  rational. Zero has no sign here: a negative zero is rendered as \<open>0\<close> and is not
  greater than 0, and the program divides by constants and by counts only.
\<close>

datatype jsnum = NaN | PosInf | NegInf | Fin rat

definition pow2 :: "int \<Rightarrow> rat" where
  "pow2 e = (if 0 \<le> e then 2 ^ nat e else 1 / 2 ^ nat (- e))"

text \<open>
  The binary exponent of a positive rational, the \<open>e\<close> with \<open>2\<^sup>e \<le> a < 2\<^sup>e\<^sup>+\<^sup>1\<close>, found by
  halving from above 2 and by doubling from below 1.
\<close>

function halvings :: "rat \<Rightarrow> int" where
  "halvings a = (if a < 2 then 0 else 1 + halvings (a / 2))"
  by pat_completeness auto
termination
proof (relation "measure (\<lambda>a. nat \<lfloor>a\<rfloor>)")
  show "wf (measure (\<lambda>a. nat \<lfloor>a\<rfloor>))" by simp
next
  fix a :: rat
  assume "\<not> a < 2"
  then have "\<lfloor>a / 2\<rfloor> < \<lfloor>a\<rfloor>" by linarith
  moreover have "0 < \<lfloor>a\<rfloor>" using \<open>\<not> a < 2\<close> by linarith
  ultimately show "(a / 2, a) \<in> measure (\<lambda>a. nat \<lfloor>a\<rfloor>)" by simp
qed

function doublings :: "rat \<Rightarrow> int" where
  "doublings a = (if a \<le> 0 \<or> 1 \<le> a then 0 else doublings (a * 2) - 1)"
  by pat_completeness auto
termination
proof (relation "measure (\<lambda>a. nat \<lfloor>1 / a\<rfloor>)")
  show "wf (measure (\<lambda>a. nat \<lfloor>1 / a\<rfloor>))" by simp
next
  fix a :: rat
  assume "\<not> (a \<le> 0 \<or> 1 \<le> a)"
  then have a: "0 < a" "a < 1" by simp_all
  define x where "x = 1 / a"
  have x: "1 < x" using a by (simp add: x_def)
  have f: "1 \<le> \<lfloor>x\<rfloor>" using x by (simp add: le_floor_iff)
  then have "(1::rat) \<le> of_int \<lfloor>x\<rfloor>" by simp
  moreover have "x - 1 < of_int \<lfloor>x\<rfloor>" by linarith
  ultimately have "x / 2 < of_int \<lfloor>x\<rfloor>" by linarith
  then have h: "\<lfloor>x / 2\<rfloor> < \<lfloor>x\<rfloor>" by (simp only: floor_less_iff)
  have e: "1 / (a * 2) = x / 2" by (simp add: x_def)
  have "\<lfloor>1 / (a * 2)\<rfloor> < \<lfloor>x\<rfloor>" unfolding e by (rule h)
  then have "nat \<lfloor>1 / (a * 2)\<rfloor> < nat \<lfloor>1 / a\<rfloor>" using f unfolding x_def by linarith
  then show "(a * 2, a) \<in> measure (\<lambda>a. nat \<lfloor>1 / a\<rfloor>)" by simp
qed

declare halvings.simps [simp del] doublings.simps [simp del]

definition ilog2 :: "rat \<Rightarrow> int" where
  "ilog2 a = (if 1 \<le> a then halvings a else doublings a)"

definition round_even :: "rat \<Rightarrow> int" where
  "round_even x =
     (let f = \<lfloor>x\<rfloor>; d = x - of_int f
      in if d < 1 / 2 then f else if 1 / 2 < d then f + 1 else if even f then f else f + 1)"

text \<open>
  Rounding of an exact result to binary64, to nearest with ties to even: 53 significant
  bits, exponents from -1022 (smaller values are spaced by \<open>2\<^sup>-\<^sup>1\<^sup>0\<^sup>7\<^sup>4\<close>), overflow to an
  infinity from \<open>2\<^sup>1\<^sup>0\<^sup>2\<^sup>4\<close>.
\<close>

definition fl :: "rat \<Rightarrow> jsnum" where
  "fl x =
     (if x = 0 then Fin 0
      else let a = \<bar>x\<bar>;
               e = max (ilog2 a) (- 1022);
               u = pow2 (e - 52);
               r = of_int (round_even (a / u)) * u
           in if pow2 1024 \<le> r then (if 0 < x then PosInf else NegInf) else Fin (sgn x * r))"

section \<open>Raw spreadsheet rows\<close>

text \<open>
  A raw row is a JavaScript object that maps column headers to cell values. A cell holds
  a string or a number; a column that is absent reads as \<open>undefined\<close>, which is
  \<open>None\<close> here. A numeric cell holds an integer: \<open>Num n\<close> is the double of value
  \<open>n\<close>, for an \<open>n\<close> that is a double, as every integer up to \<open>2\<^sup>5\<^sup>3\<close> in absolute
  value is. Characters are code units below 256.
\<close>

datatype cell = Str string | Num int

type_synonym row = "string \<rightharpoonup> cell"

text \<open>\<open>!v\<close> is true for \<open>undefined\<close>, the empty string and the number 0.\<close>

definition truthy :: "cell option \<Rightarrow> bool" where
  "truthy v = (case v of None \<Rightarrow> False | Some (Str s) \<Rightarrow> s \<noteq> [] | Some (Num n) \<Rightarrow> n \<noteq> 0)"

subsection \<open>Rendering numbers\<close>

definition digit_char :: "nat \<Rightarrow> char" where
  "digit_char d = ''0123456789'' ! d"

fun show_nat :: "nat \<Rightarrow> string" where
  "show_nat n = (if n < 10 then [digit_char n] else show_nat (n div 10) @ [digit_char (n mod 10)])"

declare show_nat.simps [simp del]

definition show_int :: "int \<Rightarrow> string" where
  "show_int n = (if n < 0 then CHR ''-'' # show_nat (nat (- n)) else show_nat (nat n))"

text \<open>
  The decimal exponent of a positive rational, the \<open>e\<close> with \<open>10\<^sup>e \<le> a < 10\<^sup>e\<^sup>+\<^sup>1\<close>.
\<close>

definition pow10 :: "int \<Rightarrow> rat" where
  "pow10 e = (if 0 \<le> e then 10 ^ nat e else 1 / 10 ^ nat (- e))"

function tenths :: "rat \<Rightarrow> int" where
  "tenths a = (if a < 10 then 0 else 1 + tenths (a / 10))"
  by pat_completeness auto
termination
proof (relation "measure (\<lambda>a. nat \<lfloor>a\<rfloor>)")
  show "wf (measure (\<lambda>a. nat \<lfloor>a\<rfloor>))" by simp
next
  fix a :: rat
  assume "\<not> a < 10"
  then have "\<lfloor>a / 10\<rfloor> < \<lfloor>a\<rfloor>" by linarith
  moreover have "0 < \<lfloor>a\<rfloor>" using \<open>\<not> a < 10\<close> by linarith
  ultimately show "(a / 10, a) \<in> measure (\<lambda>a. nat \<lfloor>a\<rfloor>)" by simp
qed

function tens :: "rat \<Rightarrow> int" where
  "tens a = (if a \<le> 0 \<or> 1 \<le> a then 0 else tens (a * 10) - 1)"
  by pat_completeness auto
termination
proof (relation "measure (\<lambda>a. nat \<lfloor>1 / a\<rfloor>)")
  show "wf (measure (\<lambda>a. nat \<lfloor>1 / a\<rfloor>))" by simp
next
  fix a :: rat
  assume "\<not> (a \<le> 0 \<or> 1 \<le> a)"
  then have a: "0 < a" "a < 1" by simp_all
  define x where "x = 1 / a"
  have x: "1 < x" using a by (simp add: x_def)
  have f: "1 \<le> \<lfloor>x\<rfloor>" using x by (simp add: le_floor_iff)
  then have "(1::rat) \<le> of_int \<lfloor>x\<rfloor>" by simp
  moreover have "x - 1 < of_int \<lfloor>x\<rfloor>" by linarith
  ultimately have "x / 10 < of_int \<lfloor>x\<rfloor>" by linarith
  then have h: "\<lfloor>x / 10\<rfloor> < \<lfloor>x\<rfloor>" by (simp only: floor_less_iff)
  have e: "1 / (a * 10) = x / 10" by (simp add: x_def)
  have "\<lfloor>1 / (a * 10)\<rfloor> < \<lfloor>x\<rfloor>" unfolding e by (rule h)
  then have "nat \<lfloor>1 / (a * 10)\<rfloor> < nat \<lfloor>1 / a\<rfloor>" using f unfolding x_def by linarith
  then show "(a * 10, a) \<in> measure (\<lambda>a. nat \<lfloor>1 / a\<rfloor>)" by simp
qed

declare tenths.simps [simp del] tens.simps [simp del]

definition ilog10 :: "rat \<Rightarrow> int" where
  "ilog10 a = (if 1 \<le> a then tenths a else tens a)"

text \<open>
  \<open>Number::toString\<close> of the language standard, for a positive finite value \<open>a\<close>: the
  digits are those of the integer \<open>s\<close> with the fewest digits \<open>k\<close> for which
  \<open>s \<times> 10\<^sup>n\<^sup>-\<^sup>k\<close> rounds to \<open>a\<close>. With \<open>k\<close> digits the two integers around
  \<open>a / 10\<^sup>n\<^sup>-\<^sup>k\<close> are tried; when both round to \<open>a\<close> the nearer one is taken, the even
  one on a tie, as the standard recommends and the engines do.
\<close>

definition candidate :: "rat \<Rightarrow> int \<Rightarrow> nat \<Rightarrow> nat option" where
  "candidate a e k =
     (let p = pow10 (e + 1 - int k);
          lo = nat \<lfloor>a / p\<rfloor>;
          hi = lo + 1;
          okl = (fl (of_nat lo * p) = Fin a);
          okh = (fl (of_nat hi * p) = Fin a)
      in if okl \<and> okh
         then (if a - of_nat lo * p < of_nat hi * p - a then Some lo
               else if of_nat hi * p - a < a - of_nat lo * p then Some hi
               else if even lo then Some lo else Some hi)
         else if okl then Some lo
         else if okh then Some hi
         else None)"

fun first_candidate :: "rat \<Rightarrow> int \<Rightarrow> nat list \<Rightarrow> (nat \<times> nat) option" where
  "first_candidate a e [] = None"
| "first_candidate a e (k # ks) =
     (case candidate a e k of Some s \<Rightarrow> Some (s, k) | None \<Rightarrow> first_candidate a e ks)"

text \<open>
  Seventeen digits identify every double. For a rational that is not a double the
  search finds nothing, and its first seventeen digits are taken.
\<close>

definition shortest :: "rat \<Rightarrow> int \<Rightarrow> nat \<times> nat" where
  "shortest a e =
     (case first_candidate a e [1..<18] of
        Some sk \<Rightarrow> sk
      | None \<Rightarrow> (nat \<lfloor>a / pow10 (e - 16)\<rfloor>, 17))"

definition strip_zeros :: "string \<Rightarrow> string" where
  "strip_zeros ds = rev (dropWhile (\<lambda>c. c = CHR ''0'') (rev ds))"

text \<open>
  The layout of the digits \<open>ds\<close> of a value in \<open>[10\<^sup>n\<^sup>-\<^sup>1, 10\<^sup>n)\<close>: plain digits up to
  \<open>10\<^sup>2\<^sup>1\<close>, a decimal point inside or after \<open>0.\<close> down to \<open>10\<^sup>-\<^sup>6\<close>, and exponent
  notation outside.
\<close>

definition layout :: "string \<Rightarrow> int \<Rightarrow> string" where
  "layout ds n =
     (let k = int (length ds)
      in if k \<le> n \<and> n \<le> 21 then ds @ replicate (nat (n - k)) CHR ''0''
         else if 0 < n \<and> n \<le> 21 then take (nat n) ds @ ''.'' @ drop (nat n) ds
         else if - 6 < n \<and> n \<le> 0 then ''0.'' @ replicate (nat (- n)) CHR ''0'' @ ds
         else let ex = n - 1;
                  sg = (if ex < 0 then ''-'' else ''+'');
                  es = show_nat (nat \<bar>ex\<bar>)
              in if k = 1 then ds @ ''e'' @ sg @ es
                 else take 1 ds @ ''.'' @ drop 1 ds @ ''e'' @ sg @ es)"

text \<open>
  An integer up to \<open>2\<^sup>5\<^sup>3\<close> is printed with all its digits: the doubles around it are
  at most 1 apart, so no shorter decimal rounds to it.
\<close>

definition render_pos :: "rat \<Rightarrow> string" where
  "render_pos a =
     (if of_int \<lfloor>a\<rfloor> = a \<and> a \<le> 2 ^ 53 then show_nat (nat \<lfloor>a\<rfloor>)
      else let e = ilog10 a;
               sk = shortest a e;
               ds = show_nat (fst sk);
               n = e + 1 + (int (length ds) - int (snd sk))
           in layout (strip_zeros ds) n)"

definition number_to_string :: "jsnum \<Rightarrow> string" where
  "number_to_string x =
     (case x of
        NaN \<Rightarrow> ''NaN''
      | PosInf \<Rightarrow> ''Infinity''
      | NegInf \<Rightarrow> ''-Infinity''
      | Fin q \<Rightarrow> if q = 0 then ''0''
                 else if q < 0 then CHR ''-'' # render_pos (- q)
                 else render_pos q)"

text \<open>
  The number of an integer cell, time stamp or variance. The integers that the program is
  given are doubles; the results of its arithmetic are rounded.
\<close>

definition num :: "int \<Rightarrow> jsnum" where
  "num n = Fin (of_int n)"

text \<open>\<open>String(v)\<close>, as a template literal applies it.\<close>

definition toStr :: "cell option \<Rightarrow> string" where
  "toStr v = (case v of None \<Rightarrow> ''undefined'' | Some (Str s) \<Rightarrow> s | Some (Num n) \<Rightarrow> number_to_string (num n))"

subsection \<open>\<open>parseInt\<close> with no radix argument\<close>

text \<open>
  The steps of the language standard: leading white space is skipped, a sign is read, a
  prefix \<open>0x\<close> or \<open>0X\<close> selects radix 16, and the longest run of digits of the radix
  is the numeral. No digit at all gives \<open>NaN\<close>, which is \<open>None\<close>; the source only asks
  \<open>isNaN\<close> of the result, so the rounding of a long numeral to a double is left out.
\<close>

definition is_ws :: "char \<Rightarrow> bool" where
  "is_ws c = (c \<in> set [CHR 0x09, CHR 0x0A, CHR 0x0B, CHR 0x0C, CHR 0x0D, CHR 0x20, CHR 0xA0])"

definition digit_val :: "char \<Rightarrow> nat option" where
  "digit_val = map_of
     [(CHR ''0'', 0), (CHR ''1'', 1), (CHR ''2'', 2), (CHR ''3'', 3), (CHR ''4'', 4),
      (CHR ''5'', 5), (CHR ''6'', 6), (CHR ''7'', 7), (CHR ''8'', 8), (CHR ''9'', 9),
      (CHR ''a'', 10), (CHR ''b'', 11), (CHR ''c'', 12), (CHR ''d'', 13), (CHR ''e'', 14),
      (CHR ''f'', 15), (CHR ''A'', 10), (CHR ''B'', 11), (CHR ''C'', 12), (CHR ''D'', 13),
      (CHR ''E'', 14), (CHR ''F'', 15)]"

definition is_digit :: "nat \<Rightarrow> char \<Rightarrow> bool" where
  "is_digit R c = (case digit_val c of None \<Rightarrow> False | Some d \<Rightarrow> d < R)"

definition numeral_val :: "nat \<Rightarrow> string \<Rightarrow> nat" where
  "numeral_val R Z = foldl (\<lambda>a c. a * R + the (digit_val c)) 0 Z"

definition parseInt :: "string \<Rightarrow> int option" where
  "parseInt inputString =
     (let S = dropWhile is_ws inputString;
          sign = (if S \<noteq> [] \<and> hd S = CHR ''-'' then - 1 else 1);
          S1 = (if S \<noteq> [] \<and> (hd S = CHR ''+'' \<or> hd S = CHR ''-'') then tl S else S);
          hex = (take 2 S1 = ''0x'' \<or> take 2 S1 = ''0X'');
          R = (if hex then 16 else 10);
          S2 = (if hex then drop 2 S1 else S1);
          Z = takeWhile (is_digit R) S2
      in if Z = [] then None else Some (sign * int (numeral_val R Z)))"

subsection \<open>The expiry date pattern\<close>

text \<open>\<open>/^\d{4}-\d{2}-\d{2}$/.test(s)\<close>: exactly ten characters, digits and two hyphens.\<close>

definition is_dec :: "char \<Rightarrow> bool" where
  "is_dec c = is_digit 10 c"

definition date_pattern :: "string \<Rightarrow> bool" where
  "date_pattern s =
     (length s = 10 \<and> list_all is_dec (take 4 s) \<and> s ! 4 = CHR ''-''
      \<and> list_all is_dec (take 2 (drop 5 s)) \<and> s ! 7 = CHR ''-''
      \<and> list_all is_dec (drop 8 s))"

section \<open>Validation\<close>

record validation_result =
  isValid :: bool
  errors :: "string list"

definition required :: "string list" where
  "required = [''Location'', ''Bin'', ''PalletID'', ''ItemNumber'', ''SystemQuantity'']"

definition missing_msg :: "string \<Rightarrow> string" where
  "missing_msg col = ''Missing required column: '' @ col"

definition quantity_msg :: "cell option \<Rightarrow> string" where
  "quantity_msg v = ''SystemQuantity must be a number, got: '' @ toStr v"

definition expiry_msg :: "cell option \<Rightarrow> string" where
  "expiry_msg v = ''ExpiryDate must be YYYY-MM-DD format, got: '' @ toStr v"

text \<open>The body of \<open>required.forEach\<close>: one push for each column whose value is falsy.\<close>

definition check_required :: "row \<Rightarrow> string list \<Rightarrow> string \<Rightarrow> string list" where
  "check_required row errs col = (if \<not> truthy (row col) then errs @ [missing_msg col] else errs)"

definition validateInventoryRow :: "row \<Rightarrow> validation_result" where
  "validateInventoryRow row =
     (let errors0 = foldl (check_required row) [] required;
          errors1 = (if truthy (row ''SystemQuantity'') \<and> parseInt (toStr (row ''SystemQuantity'')) = None
                     then errors0 @ [quantity_msg (row ''SystemQuantity'')] else errors0);
          errors2 = (if truthy (row ''ExpiryDate'') \<and> \<not> date_pattern (toStr (row ''ExpiryDate''))
                     then errors1 @ [expiry_msg (row ''ExpiryDate'')] else errors1)
      in \<lparr>isValid = (length errors2 = 0), errors = errors2\<rparr>)"

text \<open>The type error of the quantity check is recognised by its fixed prefix.\<close>

definition has_quantity_error :: "validation_result \<Rightarrow> bool" where
  "has_quantity_error res = list_ex (prefix ''SystemQuantity must be a number, got: '') (errors res)"

text \<open>The row of the repository's first validation test, with the quantity left open.\<close>

definition sample_row :: "cell \<Rightarrow> row" where
  "sample_row q = [''Location'' \<mapsto> Str ''Area-A'', ''Bin'' \<mapsto> Str ''A-1'',
     ''PalletID'' \<mapsto> Str ''PAL-001'', ''ItemNumber'' \<mapsto> Str ''SKU-1001'', ''SystemQuantity'' \<mapsto> q]"

section \<open>Deduplication\<close>

text \<open>The key of a row: the template literal \<open>`${row.PalletID}|${row.Bin}`\<close>.\<close>

definition keyOf :: "row \<Rightarrow> string" where
  "keyOf row = toStr (row ''PalletID'') @ ''|'' @ toStr (row ''Bin'')"

text \<open>\<open>{ ...row, reason: 'Duplicate PalletID+Bin' }\<close>: a copy of the row with one more column.\<close>

definition annotate :: "row \<Rightarrow> row" where
  "annotate row = row(''reason'' \<mapsto> Str ''Duplicate PalletID+Bin'')"

text \<open>
  \<open>Array.prototype.filter\<close> with a callback that updates variables of the enclosing
  function: the callback takes their state and returns it with its verdict.
\<close>

fun filter_st :: "('s \<Rightarrow> 'a \<Rightarrow> bool \<times> 's) \<Rightarrow> 's \<Rightarrow> 'a list \<Rightarrow> 'a list \<times> 's" where
  "filter_st f st [] = ([], st)"
| "filter_st f st (x # xs) =
     (case f st x of (keep, st') \<Rightarrow>
        (case filter_st f st' xs of (ys, st'') \<Rightarrow> (if keep then x # ys else ys, st'')))"

text \<open>The state of the callback: the map \<open>seen\<close> and the list \<open>duplicates\<close>.\<close>

type_synonym dedup_state = "(string \<rightharpoonup> row) \<times> row list"

definition dedup_callback :: "dedup_state \<Rightarrow> row \<Rightarrow> bool \<times> dedup_state" where
  "dedup_callback st row =
     (case st of (seen, duplicates) \<Rightarrow>
        let key = keyOf row in
        if seen key \<noteq> None then (False, (seen, duplicates @ [annotate row]))
        else (True, (seen(key \<mapsto> row), duplicates)))"

record dedup_result =
  unique :: "row list"
  duplicates :: "row list"
  deduplicationCount :: nat

definition deduplicateRows :: "row list \<Rightarrow> dedup_result" where
  "deduplicateRows rows =
     (case filter_st dedup_callback (Map.empty, []) rows of
        (kept, (seen, dups)) \<Rightarrow>
          \<lparr>unique = kept, duplicates = dups, deduplicationCount = length dups\<rparr>)"

text \<open>The identity the specification speaks of: the pair of the two cells.\<close>

definition pair_of :: "row \<Rightarrow> cell option \<times> cell option" where
  "pair_of row = (row ''PalletID'', row ''Bin'')"

text \<open>
  Rows as the schema types them: PalletID and Bin are strings, and the bin, which the
  schema matches against \<open>/^[A-Za-z0-9\-]+$/\<close>, has no vertical bar.
\<close>

definition well_keyed :: "row \<Rightarrow> bool" where
  "well_keyed row =
     (case (row ''PalletID'', row ''Bin'') of
        (Some (Str p), Some (Str b)) \<Rightarrow> CHR ''|'' \<notin> set b
      | _ \<Rightarrow> False)"

text \<open>
  What the code decides: index \<open>i\<close> holds the first row with its key string, the
  rows before it have other keys.
\<close>

definition first_with_key :: "row list \<Rightarrow> nat \<Rightarrow> bool" where
  "first_with_key rows i = (\<forall>j<i. keyOf (rows ! j) \<noteq> keyOf (rows ! i))"

text \<open>
  What the specification asks for: index \<open>i\<close> holds the first occurrence of its
  (PalletID, Bin) pair, no row before it has that pair.
\<close>

definition first_occurrence :: "row list \<Rightarrow> nat \<Rightarrow> bool" where
  "first_occurrence rows i = (pair_of (rows ! i) \<notin> set (map pair_of (take i rows)))"

definition pallet_row :: "string \<Rightarrow> string \<Rightarrow> row" where
  "pallet_row p b = [''PalletID'' \<mapsto> Str p, ''Bin'' \<mapsto> Str b]"

text \<open>Three rows with distinct identities, two of which get the same key.\<close>

definition split_rows :: "row list" where
  "split_rows = [pallet_row ''X|Y'' ''Z'', pallet_row ''X'' ''Y|Z'', pallet_row ''X'' ''W'']"

text \<open>The four rows of the specification's end-to-end example.\<close>

definition example_rows :: "row list" where
  "example_rows = [pallet_row ''PAL-001'' ''A-1'', pallet_row ''PAL-002'' ''A-1'',
     pallet_row ''PAL-001'' ''A-2'', pallet_row ''PAL-001'' ''A-1'']"

section \<open>Arithmetic\<close>

text \<open>
  The operators of the source on numbers: the exact result of the operation, rounded
  once. An infinity or a value that is not a number passes through.
\<close>

text \<open>\<open>x + y\<close> and \<open>x - y\<close>.\<close>

definition js_plus :: "jsnum \<Rightarrow> jsnum \<Rightarrow> jsnum" where
  "js_plus x y =
     (case x of
        NaN \<Rightarrow> NaN
      | PosInf \<Rightarrow> (case y of NaN \<Rightarrow> NaN | NegInf \<Rightarrow> NaN | _ \<Rightarrow> PosInf)
      | NegInf \<Rightarrow> (case y of NaN \<Rightarrow> NaN | PosInf \<Rightarrow> NaN | _ \<Rightarrow> NegInf)
      | Fin a \<Rightarrow> (case y of Fin b \<Rightarrow> fl (a + b) | _ \<Rightarrow> y))"

definition js_neg :: "jsnum \<Rightarrow> jsnum" where
  "js_neg x = (case x of NaN \<Rightarrow> NaN | PosInf \<Rightarrow> NegInf | NegInf \<Rightarrow> PosInf | Fin a \<Rightarrow> Fin (- a))"

definition js_minus :: "jsnum \<Rightarrow> jsnum \<Rightarrow> jsnum" where
  "js_minus x y = js_plus x (js_neg y)"

text \<open>\<open>x / k\<close> and \<open>x % k\<close> for a positive integer constant \<open>k\<close>. The remainder is exact and has
  the sign of the dividend.\<close>

definition js_over :: "jsnum \<Rightarrow> nat \<Rightarrow> jsnum" where
  "js_over x k = (case x of Fin q \<Rightarrow> fl (q / of_nat k) | _ \<Rightarrow> x)"

definition js_rem :: "jsnum \<Rightarrow> nat \<Rightarrow> jsnum" where
  "js_rem x k =
     (case x of
        Fin q \<Rightarrow> Fin (if 0 \<le> q then q - of_nat k * of_int \<lfloor>q / of_nat k\<rfloor>
                      else - (- q - of_nat k * of_int \<lfloor>- q / of_nat k\<rfloor>))
      | _ \<Rightarrow> NaN)"

text \<open>\<open>Math.floor(x)\<close> and \<open>x > 0\<close>.\<close>

definition js_floor :: "jsnum \<Rightarrow> jsnum" where
  "js_floor x = (case x of Fin q \<Rightarrow> Fin (of_int \<lfloor>q\<rfloor>) | _ \<Rightarrow> x)"

definition js_pos :: "jsnum \<Rightarrow> bool" where
  "js_pos x = (case x of Fin q \<Rightarrow> 0 < q | PosInf \<Rightarrow> True | _ \<Rightarrow> False)"

text \<open>\<open>a / b\<close> for two counts.\<close>

definition js_div :: "nat \<Rightarrow> nat \<Rightarrow> jsnum" where
  "js_div a b =
     (if b = 0 then (if a = 0 then NaN else PosInf)
      else fl (of_nat a / of_nat b))"

text \<open>\<open>x * k\<close> for a positive integer constant \<open>k\<close>.\<close>

definition js_times :: "jsnum \<Rightarrow> nat \<Rightarrow> jsnum" where
  "js_times x k = (case x of Fin q \<Rightarrow> fl (q * of_nat k) | _ \<Rightarrow> x)"

text \<open>
  \<open>Number.prototype.toFixed\<close>. A value that is not finite is rendered by name. A finite
  value below \<open>10\<^sup>2\<^sup>1\<close> is rendered with \<open>f\<close> decimals, the nearest such decimal and
  the larger one on a tie. From \<open>10\<^sup>2\<^sup>1\<close> on the standard asks for exponent notation and
  leaves its last digit to the implementation: \<open>Exponential q\<close> stands for that string.
\<close>

datatype numstr = Digits string | Exponential rat

definition toFixed :: "nat \<Rightarrow> jsnum \<Rightarrow> numstr" where
  "toFixed f x =
     (case x of
        NaN \<Rightarrow> Digits ''NaN''
      | PosInf \<Rightarrow> Digits ''Infinity''
      | NegInf \<Rightarrow> Digits ''-Infinity''
      | Fin q \<Rightarrow>
          let s = (if q < 0 then ''-'' else ''''); a = \<bar>q\<bar>
          in if 10 ^ 21 \<le> a then Exponential q
             else let n = nat \<lfloor>a * 10 ^ f + 1 / 2\<rfloor>;
                      m = show_nat n;
                      m = (if length m \<le> f then replicate (f + 1 - length m) CHR ''0'' @ m else m);
                      k = length m
                  in Digits (if f = 0 then s @ m else s @ take (k - f) m @ ''.'' @ drop (k - f) m))"

section \<open>Variance statistics\<close>

text \<open>The variance of an action is an integer, the double of that value.\<close>

record action =
  actionId :: string
  variance :: int
  flagged :: bool

text \<open>The object \<open>stats\<close> as the literal creates it; two more properties are added later.\<close>

record stats_literal =
  totalActions :: nat
  totalVariance :: jsnum
  positiveVariances :: "action list"
  negativeVariances :: "action list"
  zeroVariances :: "action list"

record variance_stats = stats_literal +
  varianceCount :: nat
  accuracyPercentage :: numstr

text \<open>The body of \<open>countActions.forEach\<close>. The sum is rounded at every step.\<close>

definition tally :: "stats_literal \<Rightarrow> action \<Rightarrow> stats_literal" where
  "tally stats a =
     (let stats = stats\<lparr>totalVariance := js_plus (totalVariance stats) (num (variance a))\<rparr>
      in if variance a > 0 then stats\<lparr>positiveVariances := positiveVariances stats @ [a]\<rparr>
         else if variance a < 0 then stats\<lparr>negativeVariances := negativeVariances stats @ [a]\<rparr>
         else stats\<lparr>zeroVariances := zeroVariances stats @ [a]\<rparr>)"

definition calculateVarianceStats :: "action list \<Rightarrow> variance_stats" where
  "calculateVarianceStats countActions =
     (let stats = foldl tally
            \<lparr>totalActions = length countActions, totalVariance = num 0, positiveVariances = [],
             negativeVariances = [], zeroVariances = []\<rparr> countActions;
          count = length (positiveVariances stats) + length (negativeVariances stats);
          accuracy = toFixed 2 (js_times (js_div (length (zeroVariances stats)) (totalActions stats)) 100)
      in \<lparr>totalActions = totalActions stats, totalVariance = totalVariance stats,
          positiveVariances = positiveVariances stats, negativeVariances = negativeVariances stats,
          zeroVariances = zeroVariances stats, varianceCount = count, accuracyPercentage = accuracy\<rparr>)"

section \<open>Session metrics\<close>

definition formatDuration :: "jsnum \<Rightarrow> string" where
  "formatDuration seconds =
     (let hours = js_floor (js_over seconds 3600);
          minutes = js_floor (js_over (js_rem seconds 3600) 60);
          secs = js_rem seconds 60
      in if js_pos hours
         then number_to_string hours @ ''h '' @ number_to_string minutes @ ''m ''
              @ number_to_string secs @ ''s''
         else if js_pos minutes then number_to_string minutes @ ''m '' @ number_to_string secs @ ''s''
         else number_to_string secs @ ''s'')"

record session =
  sessionId :: string
  location :: string
  bins :: "string list"
  startTime :: int
  endTime :: "int option"
  totalPallets :: nat

record session_metrics =
  sessionId :: string
  location :: string
  binsCount :: nat
  totalPallets :: nat
  countedPallets :: nat
  completionPercentage :: numstr
  durationSeconds :: jsnum
  durationFormatted :: string
  varianceCount :: nat
  flaggedCount :: nat

text \<open>\<open>session.endTime\<close> as a condition: \<open>null\<close> and 0 are falsy.\<close>

definition ended :: "session \<Rightarrow> bool" where
  "ended s = (case session.endTime s of None \<Rightarrow> False | Some t \<Rightarrow> t \<noteq> 0)"

text \<open>
  The function reads the clock: \<open>now\<close> is the value of \<open>Date.now()\<close> at the call, in
  milliseconds. The time stamps are integers, the doubles of those values.
\<close>

definition calculateSessionMetrics :: "int \<Rightarrow> session \<Rightarrow> action list \<Rightarrow> session_metrics" where
  "calculateSessionMetrics now s countActions =
     (let duration = (if ended s then js_minus (num (the (session.endTime s))) (num (session.startTime s))
                      else js_minus (num now) (num (session.startTime s)));
          seconds = js_floor (js_over duration 1000)
      in \<lparr>sessionId = session.sessionId s,
          location = session.location s,
          binsCount = length (session.bins s),
          totalPallets = session.totalPallets s,
          countedPallets = length countActions,
          completionPercentage = toFixed 2 (js_times (js_div (length countActions) (session.totalPallets s)) 100),
          durationSeconds = seconds,
          durationFormatted = formatDuration seconds,
          varianceCount = length (filter (\<lambda>a. variance a \<noteq> 0) countActions),
          flaggedCount = length (filter (\<lambda>a. flagged a) countActions)\<rparr>)"

text \<open>An in-progress session with no pallet in scope, and one action.\<close>

definition empty_session :: session where
  "empty_session = \<lparr>session.sessionId = ''SES-1'', session.location = ''Area-A'',
     session.bins = [''A-1''], session.startTime = 0, session.endTime = None,
     session.totalPallets = 0\<rparr>"

definition sample_action :: "int \<Rightarrow> action" where
  "sample_action v = \<lparr>actionId = ''ACT-1'', variance = v, flagged = False\<rparr>"

text \<open>
  The safe integers of the language, \<open>Number.isSafeInteger\<close>: up to \<open>2\<^sup>5\<^sup>3 - 1\<close> in
  absolute value. A list of integers whose sums from the left are all safe.
\<close>

definition safe :: "int \<Rightarrow> bool" where
  "safe n = (\<bar>n\<bar> \<le> 2 ^ 53 - 1)"

fun sums_safe :: "int \<Rightarrow> int list \<Rightarrow> bool" where
  "sums_safe t [] = True"
| "sums_safe t (v # vs) = (safe (t + v) \<and> sums_safe (t + v) vs)"

text \<open>Four safe variances whose sum from the left passes \<open>2\<^sup>5\<^sup>3\<close> on the way.\<close>

definition large_actions :: "action list" where
  "large_actions = map sample_action [2 ^ 53 - 1, 1, 1, - (2 ^ 53 - 1)]"

section \<open>The functions on a store of objects\<close>

text \<open>
  The functions above take their arguments as values. A JavaScript call passes
  references, and the callee could write through them. Here the four functions are
  written once more on a store, with every allocation and every write of the source: an
  address is an index into the list of objects, a new object goes to the end.
\<close>

type_synonym ref = nat

datatype obj =
    Row row
  | Action action
  | Session session
  | Refs "ref list"
  | Strs "string list"
  | KeyMap "string \<rightharpoonup> ref"
  | Validation bool ref
  | Dedup ref ref nat
  | Stats nat jsnum ref ref ref "nat option" "numstr option"
  | Metrics session_metrics

type_synonym store = "obj list"

definition alloc :: "store \<Rightarrow> obj \<Rightarrow> store \<times> ref" where
  "alloc h x = (h @ [x], length h)"

definition obj_at :: "store \<Rightarrow> ref \<Rightarrow> obj option" where
  "obj_at h a = (if a < length h then Some (h ! a) else None)"

text \<open>
  Reading through a reference. A call of the source passes a reference to an object of
  the expected kind; for any other address the reads give an empty object.
\<close>

definition row_at :: "store \<Rightarrow> ref \<Rightarrow> row" where
  "row_at h a = (case obj_at h a of Some (Row x) \<Rightarrow> x | _ \<Rightarrow> Map.empty)"

definition action_at :: "store \<Rightarrow> ref \<Rightarrow> action" where
  "action_at h a =
     (case obj_at h a of Some (Action x) \<Rightarrow> x
      | _ \<Rightarrow> \<lparr>actionId = [], variance = 0, flagged = False\<rparr>)"

definition session_at :: "store \<Rightarrow> ref \<Rightarrow> session" where
  "session_at h a =
     (case obj_at h a of Some (Session x) \<Rightarrow> x
      | _ \<Rightarrow> \<lparr>session.sessionId = [], session.location = [], session.bins = [],
             session.startTime = 0, session.endTime = None, session.totalPallets = 0\<rparr>)"

definition refs_at :: "store \<Rightarrow> ref \<Rightarrow> ref list" where
  "refs_at h a = (case obj_at h a of Some (Refs xs) \<Rightarrow> xs | _ \<Rightarrow> [])"

definition strs_at :: "store \<Rightarrow> ref \<Rightarrow> string list" where
  "strs_at h a = (case obj_at h a of Some (Strs xs) \<Rightarrow> xs | _ \<Rightarrow> [])"

definition keymap_at :: "store \<Rightarrow> ref \<Rightarrow> (string \<rightharpoonup> ref)" where
  "keymap_at h a = (case obj_at h a of Some (KeyMap m) \<Rightarrow> m | _ \<Rightarrow> Map.empty)"

text \<open>\<open>array.push(x)\<close> writes the array in place.\<close>

definition push_str :: "store \<Rightarrow> ref \<Rightarrow> string \<Rightarrow> store" where
  "push_str h a s = h[a := Strs (strs_at h a @ [s])]"

definition push_ref :: "store \<Rightarrow> ref \<Rightarrow> ref \<Rightarrow> store" where
  "push_ref h a r = h[a := Refs (refs_at h a @ [r])]"

subsection \<open>validateInventoryRow\<close>

definition check_required_st :: "ref \<Rightarrow> ref \<Rightarrow> store \<Rightarrow> string \<Rightarrow> store" where
  "check_required_st row errs h col =
     (if \<not> truthy (row_at h row col) then push_str h errs (missing_msg col) else h)"

definition check_quantity_st :: "ref \<Rightarrow> ref \<Rightarrow> store \<Rightarrow> store" where
  "check_quantity_st row errs h =
     (let q = row_at h row ''SystemQuantity''
      in if truthy q \<and> parseInt (toStr q) = None then push_str h errs (quantity_msg q) else h)"

definition check_expiry_st :: "ref \<Rightarrow> ref \<Rightarrow> store \<Rightarrow> store" where
  "check_expiry_st row errs h =
     (let d = row_at h row ''ExpiryDate''
      in if truthy d \<and> \<not> date_pattern (toStr d) then push_str h errs (expiry_msg d) else h)"

definition validateInventoryRow_st :: "store \<Rightarrow> ref \<Rightarrow> store \<times> ref" where
  "validateInventoryRow_st h row =
     (case alloc h (Strs required) of (h, req) \<Rightarrow>
      case alloc h (Strs []) of (h, errs) \<Rightarrow>
        let h = foldl (check_required_st row errs) h (strs_at h req);
            h = check_quantity_st row errs h;
            h = check_expiry_st row errs h
        in alloc h (Validation (length (strs_at h errs) = 0) errs))"

subsection \<open>deduplicateRows\<close>

definition dedup_callback_st :: "ref \<Rightarrow> ref \<Rightarrow> store \<Rightarrow> ref \<Rightarrow> bool \<times> store" where
  "dedup_callback_st seen dups h row =
     (let key = keyOf (row_at h row) in
      if keymap_at h seen key \<noteq> None
      then (case alloc h (Row (annotate (row_at h row))) of
              (h, copy) \<Rightarrow> (False, push_ref h dups copy))
      else (True, h[seen := KeyMap ((keymap_at h seen)(key \<mapsto> row))]))"

definition deduplicateRows_st :: "store \<Rightarrow> ref \<Rightarrow> store \<times> ref" where
  "deduplicateRows_st h rows =
     (case alloc h (KeyMap Map.empty) of (h, seen) \<Rightarrow>
      case alloc h (Refs []) of (h, dups) \<Rightarrow>
      case filter_st (dedup_callback_st seen dups) h (refs_at h rows) of (kept, h) \<Rightarrow>
      case alloc h (Refs kept) of (h, uniq) \<Rightarrow>
        alloc h (Dedup uniq dups (length (refs_at h dups))))"

subsection \<open>calculateVarianceStats\<close>

definition tally_st :: "ref \<Rightarrow> store \<Rightarrow> ref \<Rightarrow> store" where
  "tally_st stats h a =
     (case obj_at h stats of
        Some (Stats n tv p ng z c ap) \<Rightarrow>
          let v = variance (action_at h a);
              h = h[stats := Stats n (js_plus tv (num v)) p ng z c ap]
          in if v > 0 then push_ref h p a
             else if v < 0 then push_ref h ng a
             else push_ref h z a
      | _ \<Rightarrow> h)"

definition finish_stats :: "store \<Rightarrow> ref \<Rightarrow> store" where
  "finish_stats h stats =
     (case obj_at h stats of
        Some (Stats n tv p ng z c ap) \<Rightarrow>
          let count = length (refs_at h p) + length (refs_at h ng);
              h = h[stats := Stats n tv p ng z (Some count) ap];
              accuracy = toFixed 2 (js_times (js_div (length (refs_at h z)) n) 100)
          in h[stats := Stats n tv p ng z (Some count) (Some accuracy)]
      | _ \<Rightarrow> h)"

definition calculateVarianceStats_st :: "store \<Rightarrow> ref \<Rightarrow> store \<times> ref" where
  "calculateVarianceStats_st h countActions =
     (case alloc h (Refs []) of (h, p) \<Rightarrow>
      case alloc h (Refs []) of (h, ng) \<Rightarrow>
      case alloc h (Refs []) of (h, z) \<Rightarrow>
      case alloc h (Stats (length (refs_at h countActions)) (num 0) p ng z None None) of (h, stats) \<Rightarrow>
        let h = foldl (tally_st stats) h (refs_at h countActions)
        in (finish_stats h stats, stats))"

subsection \<open>calculateSessionMetrics\<close>

definition calculateSessionMetrics_st :: "int \<Rightarrow> store \<Rightarrow> ref \<Rightarrow> ref \<Rightarrow> store \<times> ref" where
  "calculateSessionMetrics_st now h session countActions =
     (let s = session_at h session;
          duration = (if ended s then js_minus (num (the (session.endTime s))) (num (session.startTime s))
                      else js_minus (num now) (num (session.startTime s)));
          seconds = js_floor (js_over duration 1000);
          completion = toFixed 2 (js_times (js_div (length (refs_at h countActions)) (session.totalPallets s)) 100);
          formatted = formatDuration seconds
      in case alloc h (Refs (filter (\<lambda>a. variance (action_at h a) \<noteq> 0) (refs_at h countActions))) of
           (h, varied) \<Rightarrow>
         case alloc h (Refs (filter (\<lambda>a. flagged (action_at h a)) (refs_at h countActions))) of
           (h, flags) \<Rightarrow>
           alloc h (Metrics
             \<lparr>sessionId = session.sessionId s,
              location = session.location s,
              binsCount = length (session.bins s),
              totalPallets = session.totalPallets s,
              countedPallets = length (refs_at h countActions),
              completionPercentage = completion,
              durationSeconds = seconds,
              durationFormatted = formatted,
              varianceCount = length (refs_at h varied),
              flaggedCount = length (refs_at h flags)\<rparr>))"

text \<open>
  A store with a row, two rows in an array, two actions in an array and a completed
  session.
\<close>

definition sample_store :: store where
  "sample_store =
     [Row (sample_row (Num 0)),
      Row (pallet_row ''PAL-001'' ''A-1''),
      Refs [1, 1],
      Action (sample_action 5),
      Refs [3, 3],
      Session (empty_session\<lparr>session.endTime := Some 5000\<rparr>)]"

section \<open>Properties of the number model\<close>

lemma pow2_powi: "pow2 e = 2 powi e"
  by (simp add: pow2_def power_int_def field_simps)

lemma pow10_powi: "pow10 e = 10 powi e"
  by (simp add: pow10_def power_int_def field_simps)

lemma powi_Suc: "(2::rat) powi (1 + e) = 2 * 2 powi e"
  by (simp add: power_int_add)

lemma halvings_bounds:
  "1 \<le> a \<Longrightarrow> 0 \<le> halvings a \<and> 2 powi (halvings a) \<le> a \<and> a < 2 powi (1 + halvings a)"
proof (induction a rule: halvings.induct)
  case (1 a)
  show ?case
  proof (cases "a < 2")
    case True
    then have "halvings a = 0" by (subst halvings.simps) simp
    then show ?thesis using True 1(2) by simp
  next
    case False
    then have h: "halvings a = 1 + halvings (a / 2)" by (subst halvings.simps) simp
    have "1 \<le> a / 2" using False by simp
    from 1(1)[OF False this]
    have "0 \<le> halvings (a / 2)" "2 powi (halvings (a / 2)) \<le> a / 2" "a / 2 < 2 powi (1 + halvings (a / 2))"
      by simp_all
    then show ?thesis unfolding h powi_Suc by simp
  qed
qed

lemma doublings_bounds:
  "0 < a \<Longrightarrow> a < 1 \<Longrightarrow> doublings a < 0 \<and> 2 powi (doublings a) \<le> a \<and> a < 2 powi (1 + doublings a)"
proof (induction a rule: doublings.induct)
  case (1 a)
  have h: "doublings a = doublings (a * 2) - 1" using 1(2,3) by (subst doublings.simps) simp
  have n: "\<not> (a \<le> 0 \<or> 1 \<le> a)" using 1(2,3) by simp
  show ?case
  proof (cases "a * 2 < 1")
    case True
    from 1(1)[OF n _ True] 1(2)
    have "doublings (a * 2) < 0" "2 powi (doublings (a * 2)) \<le> a * 2" "a * 2 < 2 powi (1 + doublings (a * 2))"
      by simp_all
    then show ?thesis unfolding h using powi_Suc[of "doublings (a * 2) - 1"] powi_Suc[of "doublings (a * 2)"]
      by simp
  next
    case False
    then have "doublings (a * 2) = 0" by (subst doublings.simps) simp
    then show ?thesis unfolding h using False 1(3) by simp
  qed
qed

lemma ilog2_bounds:
  assumes "0 < a"
  shows "2 powi (ilog2 a) \<le> a" "a < 2 powi (1 + ilog2 a)"
  using assms halvings_bounds[of a] doublings_bounds[of a]
  by (auto simp: ilog2_def not_le)

lemma ilog2_nonneg: "1 \<le> a \<Longrightarrow> 0 \<le> ilog2 a"
  using halvings_bounds[of a] by (simp add: ilog2_def)

lemma ilog2_less:
  assumes "0 < a" "a < 2 powi n" "0 \<le> n"
  shows "ilog2 a < n"
proof -
  have "(2::rat) powi (ilog2 a) < 2 powi n" using ilog2_bounds(1)[OF assms(1)] assms(2) by simp
  then show ?thesis using power_int_le_imp_less_exp[of "2::rat" "ilog2 a" n] assms(3) by simp
qed

lemma round_even_of_int: "round_even (of_int k) = k"
  by (simp add: round_even_def)

lemma round_even_upper: "of_int (round_even x) \<le> x + 1 / 2"
  unfolding round_even_def Let_def by (simp; linarith)

lemma round_even_ge: "of_int k \<le> x \<Longrightarrow> k \<le> round_even x"
proof -
  assume "of_int k \<le> x"
  then have "k \<le> \<lfloor>x\<rfloor>" by (simp add: le_floor_iff)
  moreover have "\<lfloor>x\<rfloor> \<le> round_even x" by (simp add: round_even_def Let_def)
  ultimately show ?thesis by simp
qed

lemma fl_of_int:
  assumes "\<bar>n\<bar> \<le> 2 ^ 53"
  shows "fl (of_int n) = Fin (of_int n)"
proof (cases "n = 0")
  case True
  then show ?thesis by (simp add: fl_def)
next
  case False
  define a :: rat where "a = of_int \<bar>n\<bar>"
  have a1: "1 \<le> a" using False by (simp add: a_def)
  have "of_int \<bar>n\<bar> \<le> (of_int (2 ^ 53) :: rat)" using assms by (simp only: of_int_le_iff)
  then have a53: "a \<le> 2 ^ 53" by (simp add: a_def)
  have a0: "0 < a" using a1 by simp
  define e where "e = ilog2 a"
  have lo: "2 powi e \<le> a" and hi: "a < 2 powi (1 + e)" and e0: "0 \<le> e"
    using ilog2_bounds[OF a0] ilog2_nonneg[OF a1] by (simp_all add: e_def)
  have "a < 2 powi 54" using a53 by simp
  from ilog2_less[OF a0 this] have e53: "e \<le> 53" by (simp add: e_def)
  have m: "max e (- 1022) = e" using e0 by simp
  have ex: "\<exists>k. a / pow2 (e - 52) = of_int k"
  proof (cases "e \<le> 52")
    case True
    have "pow2 (e - 52) = 1 / 2 ^ nat (52 - e)"
      using True by (auto simp: pow2_def)
    then have "a / pow2 (e - 52) = of_int (\<bar>n\<bar> * 2 ^ nat (52 - e))"
      by (simp add: a_def)
    then show ?thesis by blast
  next
    case False
    then have e: "e = 53" using e53 by simp
    have "(2::rat) powi 53 \<le> a" using lo unfolding e .
    then have "a = 2 ^ 53" using a53 by simp
    then have "a / pow2 (e - 52) = of_int (2 ^ 52)" by (simp add: e pow2_def)
    then show ?thesis by blast
  qed
  then obtain k where k: "a / pow2 (e - 52) = of_int k" by blast
  have u0: "pow2 (e - 52) \<noteq> 0" by (simp add: pow2_def)
  have r: "of_int (round_even (a / pow2 (e - 52))) * pow2 (e - 52) = a"
    unfolding k round_even_of_int using k u0 by (simp add: field_simps)
  have big: "\<not> pow2 1024 \<le> a"
  proof -
    have "(2::rat) ^ 53 < 2 ^ 1024" by (rule power_strict_increasing) simp_all
    then show ?thesis using a53 by (simp add: pow2_def)
  qed
  have abs: "\<bar>of_int n :: rat\<bar> = a" by (simp add: a_def)
  have sg: "sgn (of_int n :: rat) * a = of_int n" by (simp add: a_def sgn_if)
  have nz: "(of_int n :: rat) \<noteq> 0" using False by simp
  show ?thesis
    unfolding fl_def Let_def abs e_def[symmetric] m r using nz big sg by simp
qed

lemma fl_floor:
  assumes "0 \<le> x" "x < 2 ^ 42" "x \<le> of_int \<lfloor>x\<rfloor> + 1 - 1 / 3600"
  shows "\<exists>q. fl x = Fin q \<and> \<lfloor>q\<rfloor> = \<lfloor>x\<rfloor>"
proof (cases "x = 0")
  case True
  then show ?thesis by (simp add: fl_def)
next
  case False
  then have x0: "0 < x" using assms(1) by simp
  define e where "e = max (ilog2 x) (- 1022)"
  have "x < 2 powi 42" using assms(2) by simp
  from ilog2_less[OF x0 this] have e41: "e \<le> 41" by (simp add: e_def)
  define T :: int where "T = 2 ^ nat (52 - e)"
  have u: "pow2 (e - 52) = 1 / of_int T" using e41 by (auto simp: pow2_def T_def)
  have "(2::int) ^ 11 \<le> 2 ^ nat (52 - e)" by (rule power_increasing) (use e41 in simp_all)
  then have T11: "2048 \<le> T" by (simp add: T_def)
  then have T0: "0 < (of_int T :: rat)" by simp
  define m where "m = \<lfloor>x\<rfloor>"
  have m0: "0 \<le> m" using assms(1) by (simp add: m_def)
  have mx: "of_int m \<le> x" by (simp add: m_def)
  define R where "R = round_even (x * of_int T)"
  have xu: "x / pow2 (e - 52) = x * of_int T" by (simp add: u)
  have "of_int (m * T) \<le> x * of_int T" using mx T0 by simp
  then have Rlo: "m * T \<le> R" unfolding R_def by (rule round_even_ge)
  have "2048 \<le> (of_int T :: rat)" using T11 by (simp only: of_int_le_iff[symmetric, where ?'a = rat] of_int_numeral)
  then have half: "1 / 2 < (of_int T :: rat) / 3600" by simp
  have "x * of_int T \<le> (of_int m + 1 - 1 / 3600) * of_int T"
    using assms(3) T0 unfolding m_def by (simp only: mult_le_cancel_right_pos)
  then have "x * of_int T + 1 / 2 < (of_int m + 1) * of_int T"
    using half by (simp add: algebra_simps)
  then have "of_int R < (of_int (m + 1) :: rat) * of_int T"
    using round_even_upper[of "x * of_int T"] unfolding R_def by simp
  then have "(of_int R :: rat) < of_int ((m + 1) * T)" by simp
  then have Rhi: "R < (m + 1) * T" by (simp only: of_int_less_iff)
  define q :: rat where "q = of_int R / of_int T"
  have q1: "of_int m \<le> q"
  proof -
    have "(of_int (m * T) :: rat) \<le> of_int R" using Rlo by (simp only: of_int_le_iff)
    then show ?thesis using T0 by (simp add: q_def field_simps)
  qed
  have q2: "q < of_int m + 1"
  proof -
    have "(of_int R :: rat) < of_int ((m + 1) * T)" using Rhi by (simp only: of_int_less_iff)
    then show ?thesis using T0 by (simp add: q_def field_simps)
  qed
  have fq: "\<lfloor>q\<rfloor> = m" using q1 q2 by (simp add: floor_unique)
  have "q < 2 ^ 42 + 1" using q2 mx assms(2) by simp
  also have "\<dots> < 2 ^ 1024" by simp
  finally have big: "\<not> pow2 1024 \<le> q" by (simp add: pow2_def)
  have r: "of_int (round_even (x / pow2 (e - 52))) * pow2 (e - 52) = q"
    unfolding xu R_def[symmetric] by (simp add: u q_def)
  have "fl x = Fin q"
    unfolding fl_def Let_def using x0 big
    by (simp add: e_def[symmetric] r)
  then show ?thesis using fq by (simp add: m_def)
qed

lemma floor_rat_numeral: "\<lfloor>(numeral a :: rat) / numeral b\<rfloor> = numeral a div numeral b"
  using floor_divide_of_int_eq[of "numeral a" "numeral b", where ?'a = rat] by simp

lemma ilog2_unique:
  assumes "0 < x" "2 powi e \<le> x" "x < 2 powi (1 + e)"
  shows "ilog2 x = e"
proof -
  note b = ilog2_bounds[OF assms(1)]
  have "\<not> 1 + ilog2 x \<le> e"
  proof
    assume "1 + ilog2 x \<le> e"
    then have "(2::rat) powi (1 + ilog2 x) \<le> 2 powi e" by (rule power_int_increasing) simp
    then show False using b(2) assms(2) by simp
  qed
  moreover have "\<not> 1 + e \<le> ilog2 x"
  proof
    assume "1 + e \<le> ilog2 x"
    then have "(2::rat) powi (1 + e) \<le> 2 powi (ilog2 x)" by (rule power_int_increasing) simp
    then show False using b(1) assms(3) by simp
  qed
  ultimately show ?thesis by simp
qed

lemma round_even_lower: "x - 1 / 2 \<le> of_int (round_even x)"
  unfolding round_even_def Let_def by (simp; linarith)

lemma round_even_le: "x \<le> of_int k \<Longrightarrow> round_even x \<le> k"
proof -
  assume a: "x \<le> of_int k"
  show ?thesis
  proof (cases "x = of_int k")
    case True
    then show ?thesis by (simp add: round_even_of_int)
  next
    case False
    then have "x < of_int k" using a by simp
    then have "\<lfloor>x\<rfloor> < k" by (simp add: floor_less_iff)
    moreover have "round_even x \<le> \<lfloor>x\<rfloor> + 1" by (simp add: round_even_def Let_def)
    ultimately show ?thesis by simp
  qed
qed

text \<open>The rounding of a positive value whose binary exponent is known.\<close>

lemma fl_normal:
  assumes "0 < x" "2 powi e \<le> x" "x < 2 powi (1 + e)" "- 1022 \<le> e" "e \<le> 1022"
  shows "fl x = Fin (of_int (round_even (x / 2 powi (e - 52))) * 2 powi (e - 52))"
proof -
  have i: "ilog2 x = e" using assms(1-3) by (rule ilog2_unique)
  have m: "max e (- 1022) = e" using assms(4) by simp
  define u :: rat where "u = 2 powi (e - 52)"
  have u0: "0 < u" by (simp add: u_def zero_less_power_int)
  have "2 powi (1 + e) = u * 2 ^ 53"
  proof -
    have "(2::rat) powi (1 + e) = 2 powi ((e - 52) + 53)" by simp
    also have "\<dots> = 2 powi (e - 52) * 2 powi 53" by (rule power_int_add) simp
    finally show ?thesis by (simp add: u_def)
  qed
  then have "x / u < 2 ^ 53" using assms(3) u0 by (simp add: field_simps)
  then have "x / u \<le> of_int (2 ^ 53)" by simp
  then have "round_even (x / u) \<le> 2 ^ 53" by (rule round_even_le)
  then have "(of_int (round_even (x / u)) :: rat) \<le> of_int (2 ^ 53)" by (simp only: of_int_le_iff)
  then have "of_int (round_even (x / u)) * u \<le> 2 ^ 53 * u" using u0 by simp
  also have "\<dots> = 2 powi (1 + e)" using \<open>2 powi (1 + e) = u * 2 ^ 53\<close> by simp
  also have "\<dots> \<le> 2 powi 1023" by (rule power_int_increasing) (use assms(5) in simp_all)
  also have "\<dots> < pow2 1024" unfolding pow2_powi by (rule power_int_strict_increasing) simp_all
  finally have big: "\<not> pow2 1024 \<le> of_int (round_even (x / u)) * u" by simp
  show ?thesis
    unfolding fl_def Let_def using assms(1) big
    by (simp add: i m pow2_powi u_def)
qed

text \<open>A value from 1 on is rounded with a relative error of at most \<open>2\<^sup>-\<^sup>5\<^sup>3\<close>.\<close>

lemma fl_error:
  assumes "1 \<le> x" "fl x = Fin a"
  shows "\<bar>x - a\<bar> \<le> x / 2 ^ 53"
proof -
  have x0: "0 < x" using assms(1) by simp
  define e where "e = ilog2 x"
  note b = ilog2_bounds[OF x0, folded e_def]
  have e0: "0 \<le> e" using ilog2_nonneg[OF assms(1)] by (simp add: e_def)
  define u :: rat where "u = 2 powi (e - 52)"
  have u0: "0 < u" by (simp add: u_def zero_less_power_int)
  define r where "r = of_int (round_even (x / u)) * u"
  have "fl x = (if pow2 1024 \<le> r then PosInf else Fin r)"
    unfolding fl_def Let_def using x0 e0
    by (simp add: e_def[symmetric] pow2_powi u_def[symmetric] r_def)
  then have a: "a = r" using assms(2) by (simp split: if_splits)
  have "\<bar>of_int (round_even (x / u)) - x / u\<bar> \<le> 1 / 2"
    using round_even_upper[of "x / u"] round_even_lower[of "x / u"] by linarith
  then have "\<bar>of_int (round_even (x / u)) - x / u\<bar> * u \<le> 1 / 2 * u"
    using u0 by (simp only: mult_le_cancel_right_pos)
  moreover have "\<bar>of_int (round_even (x / u)) - x / u\<bar> * u = \<bar>r - x\<bar>"
  proof -
    have "(of_int (round_even (x / u)) - x / u) * u = r - x"
      using u0 by (simp add: r_def left_diff_distrib)
    then have "\<bar>r - x\<bar> = \<bar>of_int (round_even (x / u)) - x / u\<bar> * \<bar>u\<bar>"
      by (simp only: abs_mult[symmetric])
    then show ?thesis using u0 by simp
  qed
  ultimately have d: "\<bar>r - x\<bar> \<le> u / 2" by simp
  have "2 powi e = u * 2 ^ 52"
  proof -
    have "(2::rat) powi e = 2 powi ((e - 52) + 52)" by simp
    also have "\<dots> = 2 powi (e - 52) * 2 powi 52" by (rule power_int_add) simp
    finally show ?thesis by (simp add: u_def)
  qed
  then have "u * 2 ^ 52 \<le> x" using b(1) by simp
  then have "u / 2 \<le> x / 2 ^ 53" by (simp add: field_simps)
  with d show ?thesis unfolding a by (simp add: abs_minus_commute)
qed


section \<open>Properties of rendering and parsing\<close>

lemma is_digit_10_iff: "is_digit 10 c \<longleftrightarrow> c \<in> set ''0123456789''"
  by (simp add: is_digit_def digit_val_def)

lemma digit_val_digit_char: "d < 10 \<Longrightarrow> digit_val (digit_char d) = Some d"
proof -
  assume "d < 10"
  then have "d \<in> {0, 1, 2, 3, 4, 5, 6, 7, 8, 9}" by auto
  then show ?thesis by (auto simp: digit_char_def digit_val_def)
qed

lemma is_digit_digit_char: "d < 10 \<Longrightarrow> is_digit 10 (digit_char d)"
  by (simp add: is_digit_def digit_val_digit_char)

lemma show_nat_nonempty: "show_nat n \<noteq> []"
  by (subst show_nat.simps) simp

lemma show_nat_digits: "list_all (is_digit 10) (show_nat n)"
proof (induction n rule: show_nat.induct)
  case (1 n)
  show ?case
  proof (cases "n < 10")
    case True
    then show ?thesis by (subst show_nat.simps) (simp add: is_digit_digit_char)
  next
    case False
    with 1 show ?thesis by (subst show_nat.simps) (simp add: is_digit_digit_char)
  qed
qed

lemma numeral_val_snoc: "numeral_val R (Z @ [c]) = numeral_val R Z * R + the (digit_val c)"
  by (simp add: numeral_val_def)

lemma numeral_val_show_nat: "numeral_val 10 (show_nat n) = n"
proof (induction n rule: show_nat.induct)
  case (1 n)
  show ?case
  proof (cases "n < 10")
    case True
    then show ?thesis by (subst show_nat.simps) (simp add: numeral_val_def digit_val_digit_char)
  next
    case False
    with 1 show ?thesis by (subst show_nat.simps) (simp add: numeral_val_snoc digit_val_digit_char)
  qed
qed

lemma dec_not_special:
  assumes "is_digit 10 c"
  shows "\<not> is_ws c" "c \<noteq> CHR ''-''" "c \<noteq> CHR ''+''" "c \<noteq> CHR ''x''" "c \<noteq> CHR ''X''"
  using assms by (auto simp: is_digit_10_iff is_ws_def)

lemma digits_no_hex_prefix:
  assumes "list_all (is_digit 10) Z"
  shows "take 2 Z \<noteq> ''0x''" "take 2 Z \<noteq> ''0X''"
proof -
  { fix y assume "take 2 Z = [CHR ''0'', y]"
    then have "y \<in> set Z" by (metis in_set_takeD list.set_intros(1,2))
    then have "is_digit 10 y" using assms by (simp add: list_all_iff) }
  then show "take 2 Z \<noteq> ''0x''" "take 2 Z \<noteq> ''0X''"
    using dec_not_special(4,5) by blast+
qed

lemma parseInt_digits:
  assumes "Z \<noteq> []" "list_all (is_digit 10) Z"
  shows "parseInt Z = Some (int (numeral_val 10 Z))"
proof -
  have c: "is_digit 10 (hd Z)" using assms by (cases Z) auto
  have d: "dropWhile is_ws Z = Z" using assms(1) dec_not_special(1)[OF c] by (cases Z) auto
  have tw: "takeWhile (is_digit 10) Z = Z"
    using assms(2) by (simp add: list_all_iff)
  show ?thesis
    by (simp add: parseInt_def Let_def d tw assms(1) dec_not_special[OF c]
        digits_no_hex_prefix[OF assms(2)])
qed

lemma parseInt_neg_digits:
  assumes "Z \<noteq> []" "list_all (is_digit 10) Z"
  shows "parseInt (CHR ''-'' # Z) = Some (- int (numeral_val 10 Z))"
proof -
  have d: "\<not> is_ws CHR ''-''" by (simp add: is_ws_def)
  have tw: "takeWhile (is_digit 10) Z = Z"
    using assms(2) by (simp add: list_all_iff)
  show ?thesis
    by (simp add: parseInt_def Let_def d tw assms(1) digits_no_hex_prefix[OF assms(2)])
qed

text \<open>Every integer, rendered in decimal, is read back by \<open>parseInt\<close>.\<close>

lemma parseInt_show_int: "parseInt (show_int n) = Some n"
  by (simp add: show_int_def parseInt_digits parseInt_neg_digits show_nat_nonempty
      show_nat_digits numeral_val_show_nat)

text \<open>The rendering of a number starts with a digit other than 0, or with \<open>0.\<close>.\<close>

lemma tenths_bound: "1 \<le> a \<Longrightarrow> 0 \<le> tenths a \<and> 10 powi (tenths a) \<le> a"
proof (induction a rule: tenths.induct)
  case (1 a)
  show ?case
  proof (cases "a < 10")
    case True
    then have "tenths a = 0" by (subst tenths.simps) simp
    then show ?thesis using 1(2) by simp
  next
    case False
    then have h: "tenths a = 1 + tenths (a / 10)" by (subst tenths.simps) simp
    have "1 \<le> a / 10" using False by simp
    from 1(1)[OF False this]
    have "0 \<le> tenths (a / 10)" "10 powi (tenths (a / 10)) \<le> a / 10" by simp_all
    then show ?thesis unfolding h by (simp add: power_int_add)
  qed
qed

lemma leading_digits_pos:
  assumes "1 \<le> a" "1 \<le> j"
  shows "1 \<le> nat \<lfloor>a / pow10 (ilog10 a + 1 - j)\<rfloor>"
proof -
  have e: "ilog10 a = tenths a" using assms(1) by (simp add: ilog10_def)
  have "(10::rat) powi (tenths a + 1 - j) \<le> 10 powi (tenths a)"
    by (rule power_int_increasing) (use assms(2) in simp_all)
  also have "\<dots> \<le> a" using tenths_bound[OF assms(1)] by simp
  finally have "pow10 (ilog10 a + 1 - j) \<le> a" by (simp add: e pow10_powi)
  moreover have "0 < pow10 (ilog10 a + 1 - j)" by (simp add: pow10_powi zero_less_power_int)
  ultimately have "of_int 1 \<le> a / pow10 (ilog10 a + 1 - j)" by (simp add: field_simps)
  then have "1 \<le> \<lfloor>a / pow10 (ilog10 a + 1 - j)\<rfloor>" by (simp only: le_floor_iff)
  then show ?thesis by linarith
qed

lemma candidate_ge:
  "candidate a e k = Some s \<Longrightarrow> nat \<lfloor>a / pow10 (e + 1 - int k)\<rfloor> \<le> s"
  by (auto simp: candidate_def Let_def split: if_splits)

lemma first_candidate_Some:
  "first_candidate a e ks = Some (s, k) \<Longrightarrow> k \<in> set ks \<and> candidate a e k = Some s"
  by (induction ks) (auto split: option.splits)

lemma shortest_pos:
  assumes "1 \<le> a"
  shows "1 \<le> fst (shortest a (ilog10 a))"
proof (cases "first_candidate a (ilog10 a) [1..<18]")
  case None
  have "1 \<le> nat \<lfloor>a / pow10 (ilog10 a + 1 - 17)\<rfloor>"
    by (rule leading_digits_pos[OF assms]) simp
  then show ?thesis unfolding shortest_def None by simp
next
  case (Some sk)
  obtain s k where sk: "sk = (s, k)" by (cases sk)
  from first_candidate_Some[OF Some[unfolded sk]]
  have k: "k \<in> set [1..<18]" and c: "candidate a (ilog10 a) k = Some s" by simp_all
  have "1 \<le> int k" using k by simp
  from leading_digits_pos[OF assms this] candidate_ge[OF c]
  have "1 \<le> s" by simp
  then show ?thesis unfolding shortest_def Some sk by simp
qed

lemma show_nat_hd:
  "0 < n \<Longrightarrow> \<exists>c t. show_nat n = c # t \<and> is_digit 10 c \<and> c \<noteq> CHR ''0''"
proof (induction n rule: show_nat.induct)
  case (1 n)
  show ?case
  proof (cases "n < 10")
    case True
    then have "n \<in> {1, 2, 3, 4, 5, 6, 7, 8, 9}" using 1(2) by auto
    then show ?thesis
      by (subst show_nat.simps) (auto simp: digit_char_def is_digit_10_iff)
  next
    case False
    then have "0 < n div 10" by simp
    from 1(1)[OF False this] obtain c t where "show_nat (n div 10) = c # t" "is_digit 10 c" "c \<noteq> CHR ''0''"
      by blast
    then show ?thesis using False by (subst show_nat.simps) simp
  qed
qed

lemma strip_zeros_hd:
  assumes "c \<noteq> CHR ''0''"
  shows "\<exists>t'. strip_zeros (c # t) = c # t'"
proof -
  have "\<exists>ys. dropWhile (\<lambda>c. c = CHR ''0'') (rev t @ [c]) = ys @ [c]"
    using assms by (simp add: dropWhile_append)
  then obtain ys where "dropWhile (\<lambda>c. c = CHR ''0'') (rev t @ [c]) = ys @ [c]" by blast
  then have "strip_zeros (c # t) = c # rev ys" by (simp add: strip_zeros_def)
  then show ?thesis by blast
qed

lemma layout_hd:
  "\<exists>t. layout (c # ds) n = c # t \<or> layout (c # ds) n = ''0.'' @ t"
  by (cases "nat n") (auto simp: layout_def Let_def)

lemma parseInt_leading_digit:
  assumes "is_digit 10 c" "c \<noteq> CHR ''0''"
  shows "parseInt (c # t) \<noteq> None" "parseInt (CHR ''-'' # c # t) \<noteq> None"
  using assms dec_not_special[OF assms(1)]
  by (simp_all add: parseInt_def Let_def is_ws_def)

lemma parseInt_zero_point:
  "parseInt (''0.'' @ t) \<noteq> None" "parseInt (CHR ''-'' # ''0.'' @ t) \<noteq> None"
  by (simp_all add: parseInt_def Let_def is_ws_def is_digit_def digit_val_def)

lemma render_pos_parse:
  assumes "1 \<le> a"
  shows "parseInt (render_pos a) \<noteq> None \<and> parseInt (CHR ''-'' # render_pos a) \<noteq> None"
proof (cases "of_int \<lfloor>a\<rfloor> = a \<and> a \<le> 2 ^ 53")
  case True
  have "0 < nat \<lfloor>a\<rfloor>" using assms by (simp add: le_floor_iff)
  from show_nat_hd[OF this] obtain c t where "show_nat (nat \<lfloor>a\<rfloor>) = c # t" "is_digit 10 c" "c \<noteq> CHR ''0''"
    by blast
  then show ?thesis using True parseInt_leading_digit by (simp add: render_pos_def)
next
  case False
  have "0 < fst (shortest a (ilog10 a))" using shortest_pos[OF assms] by simp
  from show_nat_hd[OF this] obtain c t where
    s: "show_nat (fst (shortest a (ilog10 a))) = c # t" and c: "is_digit 10 c" "c \<noteq> CHR ''0''"
    by blast
  from strip_zeros_hd[OF c(2)] obtain t' where z: "strip_zeros (c # t) = c # t'" by blast
  define n where "n = ilog10 a + 1 + (int (length (c # t)) - int (snd (shortest a (ilog10 a))))"
  have "render_pos a = layout (strip_zeros (show_nat (fst (shortest a (ilog10 a)))))
      (ilog10 a + 1 + (int (length (show_nat (fst (shortest a (ilog10 a))))) - int (snd (shortest a (ilog10 a)))))"
    unfolding render_pos_def Let_def using False by (simp only: if_False)
  then have r: "render_pos a = layout (c # t') n"
    unfolding s z n_def .
  from layout_hd[of c t' n] obtain u where "layout (c # t') n = c # u \<or> layout (c # t') n = ''0.'' @ u"
    by blast
  then show ?thesis unfolding r
    using parseInt_leading_digit[OF c] parseInt_zero_point by metis
qed

lemma number_to_string_int:
  assumes "\<bar>n\<bar> \<le> 2 ^ 53"
  shows "number_to_string (num n) = show_int n"
proof -
  have z: "show_nat 0 = ''0''" by (simp add: show_nat.simps digit_char_def)
  have le: "(of_int \<bar>n\<bar> :: rat) \<le> 2 ^ 53"
    using assms by (simp only: of_int_le_iff[symmetric, where ?'a = rat] of_int_power of_int_numeral)
  show ?thesis
  proof (cases "n < 0")
    case True
    then have "render_pos (- of_int n) = show_nat (nat (- n))"
      using le by (simp add: render_pos_def)
    then show ?thesis using True by (simp add: number_to_string_def num_def show_int_def)
  next
    case False
    then have "render_pos (of_int n) = show_nat (nat n)"
      using le by (simp add: render_pos_def)
    then show ?thesis using False z by (simp add: number_to_string_def num_def show_int_def)
  qed
qed

text \<open>Every integer cell, as a template literal renders it, is read by \<open>parseInt\<close>.\<close>

lemma parseInt_number: "parseInt (number_to_string (num n)) \<noteq> None"
proof (cases "n = 0")
  case True
  then show ?thesis using number_to_string_int[of 0] parseInt_show_int[of 0] by simp
next
  case False
  then have "1 \<le> (of_int \<bar>n\<bar> :: rat)" by simp
  from render_pos_parse[OF this]
  have p: "parseInt (render_pos (of_int \<bar>n\<bar>)) \<noteq> None"
    "parseInt (CHR ''-'' # render_pos (of_int \<bar>n\<bar>)) \<noteq> None" by simp_all
  show ?thesis
  proof (cases "n < 0")
    case True
    then have "\<bar>n\<bar> = - n" by simp
    with p(2) True show ?thesis by (simp add: number_to_string_def num_def)
  next
    case False
    then have "\<bar>n\<bar> = n" by simp
    with p(1) False \<open>n \<noteq> 0\<close> show ?thesis by (simp add: number_to_string_def num_def)
  qed
qed

lemma toStr_int: "\<bar>n\<bar> \<le> 2 ^ 53 \<Longrightarrow> toStr (Some (Num n)) = show_int n"
  by (simp add: toStr_def number_to_string_int)

section \<open>Properties of validation\<close>

lemma foldl_check_required:
  "foldl (check_required row) acc cols = acc @ map missing_msg (filter (\<lambda>c. \<not> truthy (row c)) cols)"
  by (induction cols arbitrary: acc) (simp_all add: check_required_def)

text \<open>The error list, in the order the three checks push to it.\<close>

lemma validate_errors:
  "errors (validateInventoryRow row) =
     map missing_msg (filter (\<lambda>c. \<not> truthy (row c)) required)
     @ (if truthy (row ''SystemQuantity'') \<and> parseInt (toStr (row ''SystemQuantity'')) = None
        then [quantity_msg (row ''SystemQuantity'')] else [])
     @ (if truthy (row ''ExpiryDate'') \<and> \<not> date_pattern (toStr (row ''ExpiryDate''))
        then [expiry_msg (row ''ExpiryDate'')] else [])"
  by (simp add: validateInventoryRow_def Let_def foldl_check_required)

lemma validate_isValid: "isValid (validateInventoryRow row) = (errors (validateInventoryRow row) = [])"
  by (simp add: validateInventoryRow_def Let_def)

lemma not_quantity_prefix:
  "\<not> prefix ''SystemQuantity must be a number, got: '' (missing_msg c)"
  "\<not> prefix ''SystemQuantity must be a number, got: '' (expiry_msg v)"
  "prefix ''SystemQuantity must be a number, got: '' (quantity_msg v)"
  by (simp_all add: missing_msg_def expiry_msg_def quantity_msg_def)

lemma has_quantity_error_iff:
  "has_quantity_error (validateInventoryRow row) \<longleftrightarrow>
     truthy (row ''SystemQuantity'') \<and> parseInt (toStr (row ''SystemQuantity'')) = None"
  by (auto simp: has_quantity_error_def validate_errors list_ex_iff not_quantity_prefix)

text \<open>
  A row passes when its five required cells are truthy, the quantity starts with a numeral
  and the expiry date, if there is one, has the pattern.
\<close>

lemma validate_accepts:
  assumes "\<forall>c \<in> set required. truthy (row c)"
    and "parseInt (toStr (row ''SystemQuantity'')) \<noteq> None"
    and "\<not> truthy (row ''ExpiryDate'') \<or> date_pattern (toStr (row ''ExpiryDate''))"
  shows "validateInventoryRow row = \<lparr>isValid = True, errors = []\<rparr>"
proof -
  have "filter (\<lambda>c. \<not> truthy (row c)) required = []"
    using assms(1) by (simp add: filter_empty_conv)
  then have "errors (validateInventoryRow row) = []"
    using assms(2,3) by (auto simp: validate_errors)
  then show ?thesis
    using validate_isValid[of row] by (cases "validateInventoryRow row") simp
qed

lemma validate_accepts_sample: "validateInventoryRow (sample_row (Num 50)) = \<lparr>isValid = True, errors = []\<rparr>"
  by (rule validate_accepts)
    (simp_all add: sample_row_def required_def truthy_def toStr_int parseInt_show_int)

text \<open>
  C1. A row whose five required columns are all present and whose SystemQuantity is the
  integer 0 should be valid. The check \<open>!row[col]\<close> takes the number 0 for a missing
  cell: the first test row of the repository, with quantity 0, is rejected with the one
  error \<open>Missing required column: SystemQuantity\<close>, although 0 is read by \<open>parseInt\<close>.
\<close>

theorem validateInventoryRow_rejects_zero_quantity:
  "validateInventoryRow (sample_row (Num 0))
     = \<lparr>isValid = False, errors = [''Missing required column: SystemQuantity'']\<rparr>
   \<and> parseInt (toStr (Some (Num 0))) = Some 0"
  by (simp add: validateInventoryRow_def sample_row_def required_def check_required_def truthy_def
      missing_msg_def parseInt_show_int toStr_int)

text \<open>
  C5, as the code has it. The error \<open>SystemQuantity must be a number, got: <value>\<close> is
  reported, with the value rendered, for every truthy quantity in which \<open>parseInt\<close>
  finds no numeral. It is absent for every integer, given as a number or as its decimal
  string, and absent for every falsy quantity (an absent cell, the empty string, the
  number 0), which is reported as a missing column instead.
\<close>

theorem quantity_error_cases:
  fixes row :: row
  defines "v \<equiv> row ''SystemQuantity''"
  shows "(truthy v \<and> parseInt (toStr v) = None \<longrightarrow> quantity_msg v \<in> set (errors (validateInventoryRow row)))
       \<and> ((\<exists>n. v = Some (Num n) \<or> v = Some (Str (show_int n))) \<longrightarrow> \<not> has_quantity_error (validateInventoryRow row))
       \<and> (\<not> truthy v \<longrightarrow> \<not> has_quantity_error (validateInventoryRow row))"
  using parseInt_number
  by (auto simp: v_def validate_errors has_quantity_error_iff toStr_def parseInt_show_int)

theorem quantity_error_cases_witness:
  "''SystemQuantity must be a number, got: not-a-number''
      \<in> set (errors (validateInventoryRow (sample_row (Str ''not-a-number''))))
   \<and> \<not> has_quantity_error (validateInventoryRow (sample_row (Num 50)))
   \<and> \<not> has_quantity_error (validateInventoryRow (sample_row (Str (show_int (- 7)))))
   \<and> \<not> has_quantity_error (validateInventoryRow (sample_row (Num 0)))"
proof -
  have a: "truthy (sample_row (Str ''not-a-number'') ''SystemQuantity'')"
    "parseInt (toStr (sample_row (Str ''not-a-number'') ''SystemQuantity'')) = None"
    by (simp_all add: sample_row_def truthy_def toStr_def parseInt_def is_ws_def is_digit_def
        digit_val_def)
  have b: "sample_row (Num 50) ''SystemQuantity'' = Some (Num 50)"
    "sample_row (Str (show_int (- 7))) ''SystemQuantity'' = Some (Str (show_int (- 7)))"
    by (simp_all add: sample_row_def)
  have c: "\<not> truthy (sample_row (Num 0) ''SystemQuantity'')"
    by (simp add: sample_row_def truthy_def)
  have m: "quantity_msg (sample_row (Str ''not-a-number'') ''SystemQuantity'')
             = ''SystemQuantity must be a number, got: not-a-number''"
    by (simp add: quantity_msg_def sample_row_def toStr_def)
  show ?thesis
    using quantity_error_cases[of "sample_row (Str ''not-a-number'')"]
      quantity_error_cases[of "sample_row (Num 50)"]
      quantity_error_cases[of "sample_row (Str (show_int (- 7)))"]
      quantity_error_cases[of "sample_row (Num 0)"] a b c m
    by metis
qed

text \<open>
  C5, as the claim states it, fails: the empty string is not read as an integer, and a row
  whose quantity is the empty string gets no type error.
\<close>

theorem quantity_error_empty_string_counterexample:
  "parseInt (toStr (Some (Str ''''))) = None
   \<and> \<not> has_quantity_error (validateInventoryRow (sample_row (Str '''')))"
  by (simp add: has_quantity_error_iff sample_row_def truthy_def toStr_def parseInt_def)



section \<open>Properties of deduplication\<close>

lemma dedup_callback_new:
  "seen (keyOf r) = None \<Longrightarrow> dedup_callback (seen, dups) r = (True, (seen(keyOf r \<mapsto> r), dups))"
  by (simp add: dedup_callback_def)

lemma dedup_callback_old:
  "seen (keyOf r) \<noteq> None \<Longrightarrow> dedup_callback (seen, dups) r = (False, (seen, dups @ [annotate r]))"
  by (simp add: dedup_callback_def)

lemma filter_st_dedup:
  "filter_st dedup_callback (seen, dups) rows = (uq, (seen', dups')) \<Longrightarrow>
     uq = nths rows {i. seen (keyOf (rows ! i)) = None \<and> first_with_key rows i}
   \<and> dups' = dups @ map annotate (nths rows (- {i. seen (keyOf (rows ! i)) = None \<and> first_with_key rows i}))"
proof (induction rows arbitrary: seen dups uq seen' dups')
  case Nil
  then show ?case by simp
next
  case (Cons r rs)
  define A where "A = {i. seen (keyOf ((r # rs) ! i)) = None \<and> first_with_key (r # rs) i}"
  have fk: "first_with_key (r # rs) (Suc j) \<longleftrightarrow> keyOf r \<noteq> keyOf (rs ! j) \<and> first_with_key rs j" for j
    by (auto simp: first_with_key_def less_Suc_eq_0_disj)
  have f0: "first_with_key (r # rs) 0" by (simp add: first_with_key_def)
  show ?case
  proof (cases "seen (keyOf r) = None")
    case True
    define B where "B = {i. (seen(keyOf r \<mapsto> r)) (keyOf (rs ! i)) = None \<and> first_with_key rs i}"
    obtain uq1 where r1: "filter_st dedup_callback (seen(keyOf r \<mapsto> r), dups) rs = (uq1, (seen', dups'))"
      and uq: "uq = r # uq1"
      using Cons.prems by (auto simp: dedup_callback_new True split: prod.splits)
    have S: "{j. Suc j \<in> A} = B" unfolding A_def B_def by (auto simp: fk)
    then have S': "{j. Suc j \<notin> A} = - B" by auto
    have 0: "0 \<in> A" unfolding A_def using True f0 by simp
    have "nths (r # rs) A = r # nths rs B" "nths (r # rs) (- A) = nths rs (- B)"
      using 0 by (simp_all add: nths_Cons S S')
    then show ?thesis
      using Cons.IH[OF r1] unfolding A_def[symmetric] B_def[symmetric] uq by simp
  next
    case False
    define B where "B = {i. seen (keyOf (rs ! i)) = None \<and> first_with_key rs i}"
    have r1: "filter_st dedup_callback (seen, dups @ [annotate r]) rs = (uq, (seen', dups'))"
      using Cons.prems False by (auto simp: dedup_callback_old split: prod.splits)
    have S: "{j. Suc j \<in> A} = B" unfolding A_def B_def using False by (auto simp: fk)
    then have S': "{j. Suc j \<notin> A} = - B" by auto
    have 0: "0 \<notin> A" unfolding A_def using False by simp
    have "nths (r # rs) A = nths rs B" "nths (r # rs) (- A) = r # nths rs (- B)"
      using 0 by (simp_all add: nths_Cons S S')
    then show ?thesis
      using Cons.IH[OF r1] unfolding A_def[symmetric] B_def[symmetric] by simp
  qed
qed

lemma dedup_unique_nths: "unique (deduplicateRows rows) = nths rows {i. first_with_key rows i}"
  and dedup_duplicates_nths: "duplicates (deduplicateRows rows) = map annotate (nths rows {i. \<not> first_with_key rows i})"
  and dedup_count: "deduplicationCount (deduplicateRows rows) = length (duplicates (deduplicateRows rows))"
proof -
  obtain uq seen' dups' where r: "filter_st dedup_callback (Map.empty, []) rows = (uq, (seen', dups'))"
    by (metis surj_pair)
  have "- {i. first_with_key rows i} = {i. \<not> first_with_key rows i}" by auto
  with filter_st_dedup[OF r] r
  show "unique (deduplicateRows rows) = nths rows {i. first_with_key rows i}"
    and "duplicates (deduplicateRows rows) = map annotate (nths rows {i. \<not> first_with_key rows i})"
    and "deduplicationCount (deduplicateRows rows) = length (duplicates (deduplicateRows rows))"
    by (simp_all add: deduplicateRows_def)
qed

lemma filter_st_dedup_length:
  "filter_st dedup_callback (seen, dups) rows = (uq, (seen', dups')) \<Longrightarrow>
     length uq + length dups' = length dups + length rows"
proof (induction rows arbitrary: seen dups uq seen' dups')
  case Nil
  then show ?case by simp
next
  case (Cons r rs)
  show ?case
  proof (cases "seen (keyOf r) = None")
    case True
    with Cons show ?thesis
      by (fastforce simp: dedup_callback_new split: prod.splits)
  next
    case False
    with Cons show ?thesis
      by (fastforce simp: dedup_callback_old split: prod.splits)
  qed
qed

lemma filter_st_dedup_distinct:
  "filter_st dedup_callback (seen, dups) rows = (uq, (seen', dups')) \<Longrightarrow>
     distinct (map keyOf uq) \<and> (\<forall>r \<in> set uq. seen (keyOf r) = None)"
proof (induction rows arbitrary: seen dups uq seen' dups')
  case Nil
  then show ?case by simp
next
  case (Cons r rs)
  show ?case
  proof (cases "seen (keyOf r) = None")
    case True
    obtain uq1 where r1: "filter_st dedup_callback (seen(keyOf r \<mapsto> r), dups) rs = (uq1, (seen', dups'))"
      and uq: "uq = r # uq1"
      using Cons.prems by (auto simp: dedup_callback_new True split: prod.splits)
    from Cons.IH[OF r1] have d: "distinct (map keyOf uq1)"
      and n: "\<forall>r' \<in> set uq1. (seen(keyOf r \<mapsto> r)) (keyOf r') = None" by auto
    from n have "\<forall>r' \<in> set uq1. keyOf r' \<noteq> keyOf r \<and> seen (keyOf r') = None"
      by (auto split: if_splits)
    with d True show ?thesis by (auto simp: uq)
  next
    case False
    then have r1: "filter_st dedup_callback (seen, dups @ [annotate r]) rs = (uq, (seen', dups'))"
      using Cons.prems by (auto simp: dedup_callback_old split: prod.splits)
    from Cons.IH[OF r1] show ?thesis .
  qed
qed

lemma dedup_length: "length (unique (deduplicateRows rows)) + length (duplicates (deduplicateRows rows)) = length rows"
proof -
  obtain uq seen' dups' where r: "filter_st dedup_callback (Map.empty, []) rows = (uq, (seen', dups'))"
    by (metis surj_pair)
  from filter_st_dedup_length[OF r] r show ?thesis by (simp add: deduplicateRows_def)
qed

lemma dedup_distinct_keys: "distinct (map keyOf (unique (deduplicateRows rows)))"
proof -
  obtain uq seen' dups' where r: "filter_st dedup_callback (Map.empty, []) rows = (uq, (seen', dups'))"
    by (metis surj_pair)
  from filter_st_dedup_distinct[OF r] r show ?thesis by (simp add: deduplicateRows_def)
qed

lemma keyOf_pair: "pair_of r = pair_of r' \<Longrightarrow> keyOf r = keyOf r'"
  by (simp add: pair_of_def keyOf_def)

lemma distinct_keys_pairs: "distinct (map keyOf xs) \<Longrightarrow> distinct (map pair_of xs)"
  by (induction xs) (auto dest: keyOf_pair)

text \<open>On rows typed as the schema types them, the key determines the pair.\<close>

lemma takeWhile_bar:
  assumes "CHR ''|'' \<notin> set b"
  shows "takeWhile (\<lambda>c. c \<noteq> CHR ''|'') (rev b @ CHR ''|'' # q) = rev b"
proof -
  have "takeWhile (\<lambda>c. c \<noteq> CHR ''|'') (rev b @ CHR ''|'' # q) = takeWhile (\<lambda>c. c \<noteq> CHR ''|'') (rev b)"
    by (simp add: takeWhile_tail)
  also have "\<dots> = rev b" using assms by (auto simp: takeWhile_eq_all_conv)
  finally show ?thesis .
qed

lemma bar_split:
  assumes "CHR ''|'' \<notin> set b" "CHR ''|'' \<notin> set b'" "p @ CHR ''|'' # b = p' @ CHR ''|'' # b'"
  shows "p = p' \<and> b = b'"
proof -
  have "rev (p @ CHR ''|'' # b) = rev (p' @ CHR ''|'' # b')" using assms(3) by (rule arg_cong)
  then have "rev b @ CHR ''|'' # rev p = rev b' @ CHR ''|'' # rev p'" by simp
  then have "takeWhile (\<lambda>c. c \<noteq> CHR ''|'') (rev b @ CHR ''|'' # rev p)
           = takeWhile (\<lambda>c. c \<noteq> CHR ''|'') (rev b' @ CHR ''|'' # rev p')" by (rule arg_cong)
  then have "rev b = rev b'"
    unfolding takeWhile_bar[OF assms(1)] takeWhile_bar[OF assms(2)] .
  then have "b = b'" by simp
  with assms(3) show ?thesis by simp
qed

lemma well_keyed_inj:
  assumes "well_keyed r" "well_keyed r'" "keyOf r = keyOf r'"
  shows "pair_of r = pair_of r'"
proof -
  obtain p b where r: "r ''PalletID'' = Some (Str p)" "r ''Bin'' = Some (Str b)" "CHR ''|'' \<notin> set b"
    using assms(1) by (auto simp: well_keyed_def split: option.splits cell.splits)
  obtain p' b' where r': "r' ''PalletID'' = Some (Str p')" "r' ''Bin'' = Some (Str b')" "CHR ''|'' \<notin> set b'"
    using assms(2) by (auto simp: well_keyed_def split: option.splits cell.splits)
  have "p @ CHR ''|'' # b = p' @ CHR ''|'' # b'"
    using assms(3) by (simp add: keyOf_def r r' toStr_def)
  from bar_split[OF r(3) r'(3) this] show ?thesis by (simp add: pair_of_def r r')
qed

lemma annotate_pair: "pair_of (annotate r) = pair_of r"
  by (simp add: annotate_def pair_of_def)

text \<open>On such rows the first row with a key is the first occurrence of a pair.\<close>

lemma first_occurrence_iff:
  "i \<le> length rows \<Longrightarrow> first_occurrence rows i \<longleftrightarrow> (\<forall>j<i. pair_of (rows ! j) \<noteq> pair_of (rows ! i))"
proof -
  assume i: "i \<le> length rows"
  have l: "length (map pair_of (take i rows)) = i" using i by simp
  have n: "map pair_of (take i rows) ! j = pair_of (rows ! j)" if "j < i" for j
    using that i by simp
  have "pair_of (rows ! i) \<in> set (map pair_of (take i rows))
      \<longleftrightarrow> (\<exists>j<i. pair_of (rows ! j) = pair_of (rows ! i))"
    unfolding in_set_conv_nth l using n by auto
  then show ?thesis unfolding first_occurrence_def by blast
qed

lemma first_with_key_occurrence:
  assumes "i < length rows" "first_with_key rows i"
  shows "first_occurrence rows i"
proof -
  have "pair_of (rows ! j) \<noteq> pair_of (rows ! i)" if "j < i" for j
    using assms(2) that keyOf_pair[of "rows ! j" "rows ! i"] by (auto simp: first_with_key_def)
  then show ?thesis using assms(1) by (simp add: first_occurrence_iff)
qed

lemma well_keyed_first:
  assumes "\<forall>r \<in> set rows. well_keyed r" "i < length rows"
  shows "first_with_key rows i \<longleftrightarrow> first_occurrence rows i"
proof
  assume "first_with_key rows i"
  then show "first_occurrence rows i" using assms(2) by (simp add: first_with_key_occurrence)
next
  assume f: "first_occurrence rows i"
  show "first_with_key rows i"
    unfolding first_with_key_def
  proof (intro allI impI)
    fix j assume j: "j < i"
    then have "well_keyed (rows ! j)" "well_keyed (rows ! i)" using assms by simp_all
    moreover have "pair_of (rows ! j) \<noteq> pair_of (rows ! i)"
      using f j assms(2) by (simp add: first_occurrence_iff)
    ultimately show "keyOf (rows ! j) \<noteq> keyOf (rows ! i)" using well_keyed_inj by blast
  qed
qed

lemma nths_cong: "(\<And>i. i < length xs \<Longrightarrow> i \<in> A \<longleftrightarrow> i \<in> B) \<Longrightarrow> nths xs A = nths xs B"
  unfolding nths_def by (intro arg_cong[where f = "map fst"] filter_cong refl) (auto simp: set_zip)

lemma well_keyed_nths:
  assumes "\<forall>r \<in> set rows. well_keyed r"
  shows "nths rows {i. first_with_key rows i} = nths rows {i. first_occurrence rows i}"
    and "nths rows {i. \<not> first_with_key rows i} = nths rows {i. \<not> first_occurrence rows i}"
  using well_keyed_first[OF assms] by (auto intro!: nths_cong)

text \<open>
  C4, as the code has it. For every sequence of rows the result partitions the input: the
  two lengths add up to the length of the input, and the count is the number of
  duplicates; no two rows of \<open>unique\<close> have the same (PalletID, Bin) pair;
  \<open>unique\<close> keeps the order of the input. The row that is kept is the first one with
  its key string, and every row that is kept is the first occurrence of its pair. For rows
  typed as the schema types them the converse holds too: \<open>unique\<close> is the input at
  the first occurrences of the (PalletID, Bin) pairs, and \<open>duplicates\<close> is the
  annotated rest.
\<close>

theorem deduplicateRows_partition:
  fixes rows :: "row list"
  defines "res \<equiv> deduplicateRows rows"
  shows "length (unique res) + length (duplicates res) = length rows
       \<and> deduplicationCount res = length (duplicates res)
       \<and> distinct (map pair_of (unique res))
       \<and> subseq (unique res) rows
       \<and> unique res = nths rows {i. first_with_key rows i}
       \<and> duplicates res = map annotate (nths rows {i. \<not> first_with_key rows i})
       \<and> (\<forall>i < length rows. first_with_key rows i \<longrightarrow> first_occurrence rows i)
       \<and> ((\<forall>r \<in> set rows. well_keyed r) \<longrightarrow>
            unique res = nths rows {i. first_occurrence rows i}
            \<and> duplicates res = map annotate (nths rows {i. \<not> first_occurrence rows i}))"
proof -
  have "unique res = nths rows {i. first_occurrence rows i}
      \<and> duplicates res = map annotate (nths rows {i. \<not> first_occurrence rows i})"
    if "\<forall>r \<in> set rows. well_keyed r"
    unfolding res_def dedup_unique_nths dedup_duplicates_nths well_keyed_nths[OF that] by simp
  then show ?thesis
    unfolding res_def
    using dedup_length[of rows] dedup_count[of rows]
      distinct_keys_pairs[OF dedup_distinct_keys[of rows]] dedup_unique_nths[of rows]
      dedup_duplicates_nths[of rows] subseq_conv_nths[of "unique (deduplicateRows rows)" rows]
      first_with_key_occurrence[of _ rows]
    by (simp only: res_def) blast
qed

lemma dedup_example_rows:
  "deduplicateRows example_rows =
     \<lparr>unique = [pallet_row ''PAL-001'' ''A-1'', pallet_row ''PAL-002'' ''A-1'', pallet_row ''PAL-001'' ''A-2''],
      duplicates = [annotate (pallet_row ''PAL-001'' ''A-1'')], deduplicationCount = 1\<rparr>"
  by (simp add: example_rows_def deduplicateRows_def dedup_callback_def keyOf_def pallet_row_def toStr_def)

theorem deduplicateRows_partition_witness:
  "length (unique (deduplicateRows example_rows)) + length (duplicates (deduplicateRows example_rows)) = 4
   \<and> distinct (map pair_of (unique (deduplicateRows example_rows)))
   \<and> nths example_rows {i. first_occurrence example_rows i}
        = [pallet_row ''PAL-001'' ''A-1'', pallet_row ''PAL-002'' ''A-1'', pallet_row ''PAL-001'' ''A-2'']
   \<and> map annotate (nths example_rows {i. \<not> first_occurrence example_rows i})
        = [annotate (pallet_row ''PAL-001'' ''A-1'')]
   \<and> subseq (unique (deduplicateRows example_rows)) example_rows
   \<and> first_occurrence example_rows 2 \<and> \<not> first_occurrence example_rows 3"
proof -
  note p = deduplicateRows_partition[of example_rows]
  have l: "length example_rows = 4" by (simp add: example_rows_def)
  have wk: "\<forall>r \<in> set example_rows. well_keyed r"
    by (simp add: example_rows_def well_keyed_def pallet_row_def)
  have u: "unique (deduplicateRows example_rows)
      = [pallet_row ''PAL-001'' ''A-1'', pallet_row ''PAL-002'' ''A-1'', pallet_row ''PAL-001'' ''A-2'']"
    and d: "duplicates (deduplicateRows example_rows) = [annotate (pallet_row ''PAL-001'' ''A-1'')]"
    by (simp_all add: dedup_example_rows)
  from p have 1: "length (unique (deduplicateRows example_rows))
      + length (duplicates (deduplicateRows example_rows)) = 4"
    unfolding l by blast
  from p have 2: "distinct (map pair_of (unique (deduplicateRows example_rows)))" by blast
  from p wk have "unique (deduplicateRows example_rows) = nths example_rows {i. first_occurrence example_rows i}"
    by blast
  then have 3: "nths example_rows {i. first_occurrence example_rows i}
      = [pallet_row ''PAL-001'' ''A-1'', pallet_row ''PAL-002'' ''A-1'', pallet_row ''PAL-001'' ''A-2'']"
    unfolding u by (rule sym)
  from p wk have "duplicates (deduplicateRows example_rows)
      = map annotate (nths example_rows {i. \<not> first_occurrence example_rows i})"
    by blast
  then have 4: "map annotate (nths example_rows {i. \<not> first_occurrence example_rows i})
      = [annotate (pallet_row ''PAL-001'' ''A-1'')]"
    unfolding d by (rule sym)
  from p have 5: "subseq (unique (deduplicateRows example_rows)) example_rows" by blast
  have 6: "first_occurrence example_rows 2" "\<not> first_occurrence example_rows 3"
    by (simp_all add: first_occurrence_def example_rows_def pair_of_def pallet_row_def
        numeral_2_eq_2 numeral_3_eq_3)
  from 1 2 3 4 5 6 show ?thesis by blast
qed

text \<open>
  C4, as the claim states it, fails on raw rows: the first occurrence of a pair is not
  always kept. The second row of \<open>split_rows\<close> is the first, and the only, row with
  its (PalletID, Bin) pair; its key string is that of the first row, and it is rejected.
\<close>

lemma dedup_split_rows:
  "deduplicateRows split_rows =
     \<lparr>unique = [pallet_row ''X|Y'' ''Z'', pallet_row ''X'' ''W''],
      duplicates = [annotate (pallet_row ''X'' ''Y|Z'')], deduplicationCount = 1\<rparr>"
  by (simp add: split_rows_def deduplicateRows_def dedup_callback_def keyOf_def pallet_row_def toStr_def)

theorem first_occurrence_rejected_counterexample:
  "first_occurrence split_rows 1
   \<and> pair_of (split_rows ! 1) \<noteq> pair_of (split_rows ! 0)
   \<and> pair_of (split_rows ! 1) \<noteq> pair_of (split_rows ! 2)
   \<and> keyOf (split_rows ! 1) = keyOf (split_rows ! 0)
   \<and> unique (deduplicateRows split_rows) = [split_rows ! 0, split_rows ! 2]
   \<and> split_rows ! 1 \<notin> set (unique (deduplicateRows split_rows))"
proof -
  have ne: "pallet_row ''X'' ''Y|Z'' \<noteq> pallet_row ''X|Y'' ''Z''" "pallet_row ''X'' ''Y|Z'' \<noteq> pallet_row ''X'' ''W''"
    by (auto simp: pallet_row_def fun_eq_iff)
  have f: "first_occurrence split_rows 1"
    by (simp add: first_occurrence_def split_rows_def pair_of_def pallet_row_def)
  have k: "keyOf (split_rows ! 1) = keyOf (split_rows ! 0)"
    by (simp add: split_rows_def keyOf_def pallet_row_def toStr_def)
  show ?thesis
    using ne f k by (simp add: dedup_split_rows) (simp add: split_rows_def pallet_row_def pair_of_def)
qed

text \<open>
  C3, for rows typed as the schema types them (PalletID and Bin are strings, no vertical
  bar in the bin). Two rows of the input with the same PalletID and different bins have
  different keys, so neither is rejected because of the other; when no other row has the
  (PalletID, Bin) pair of either, both are in \<open>unique\<close> and neither is among the
  duplicates.
\<close>

theorem same_pallet_different_bin_kept:
  assumes wk: "\<forall>r \<in> set rows. well_keyed r"
    and i: "i < length rows" and j: "j < length rows"
    and pal: "(rows ! i) ''PalletID'' = (rows ! j) ''PalletID''"
    and bin: "(rows ! i) ''Bin'' \<noteq> (rows ! j) ''Bin''"
    and others: "\<forall>k < length rows. k \<noteq> i \<and> k \<noteq> j \<longrightarrow>
                   pair_of (rows ! k) \<noteq> pair_of (rows ! i) \<and> pair_of (rows ! k) \<noteq> pair_of (rows ! j)"
  shows "keyOf (rows ! i) \<noteq> keyOf (rows ! j)
       \<and> rows ! i \<in> set (unique (deduplicateRows rows))
       \<and> rows ! j \<in> set (unique (deduplicateRows rows))
       \<and> annotate (rows ! i) \<notin> set (duplicates (deduplicateRows rows))
       \<and> annotate (rows ! j) \<notin> set (duplicates (deduplicateRows rows))"
proof -
  have wkn: "well_keyed (rows ! k)" if "k < length rows" for k
    using wk that by simp
  have pij: "pair_of (rows ! i) \<noteq> pair_of (rows ! j)"
    using bin by (simp add: pair_of_def)
  have key: "keyOf (rows ! k) \<noteq> keyOf (rows ! l)"
    if "k < length rows" "l < length rows" "pair_of (rows ! k) \<noteq> pair_of (rows ! l)" for k l
    using well_keyed_inj[OF wkn[OF that(1)] wkn[OF that(2)]] that(3) by blast
  have kij: "keyOf (rows ! i) \<noteq> keyOf (rows ! j)"
    using key[OF i j pij] .
  have diff: "pair_of (rows ! k) \<noteq> pair_of (rows ! m)"
    if "k < length rows" "k \<noteq> m" "m = i \<or> m = j" for k m
    using that others pij by (metis)
  have first: "first_with_key rows m" if m: "m = i \<or> m = j" for m
    unfolding first_with_key_def
  proof (intro allI impI)
    fix k assume km: "k < m"
    have ml: "m < length rows" using m i j by auto
    then have kl: "k < length rows" using km by simp
    have "k \<noteq> m" using km by simp
    from key[OF kl ml diff[OF kl this m]] show "keyOf (rows ! k) \<noteq> keyOf (rows ! m)" .
  qed
  have inu: "rows ! m \<in> set (unique (deduplicateRows rows))" if m: "m = i \<or> m = j" for m
  proof -
    have "m < length rows" using m i j by auto
    then show ?thesis using first[OF m] by (auto simp: dedup_unique_nths set_nths)
  qed
  have nod: "annotate (rows ! m) \<notin> set (duplicates (deduplicateRows rows))" if m: "m = i \<or> m = j" for m
  proof
    assume "annotate (rows ! m) \<in> set (duplicates (deduplicateRows rows))"
    then obtain k where k: "k < length rows" "\<not> first_with_key rows k" "annotate (rows ! m) = annotate (rows ! k)"
      by (auto simp: dedup_duplicates_nths set_nths)
    have "pair_of (rows ! k) = pair_of (rows ! m)"
      using arg_cong[OF k(3), of pair_of] by (simp add: annotate_pair)
    then have "k = m" using diff[OF k(1) _ m] by blast
    with k(2) first[OF m] show False by simp
  qed
  show ?thesis using kij inu nod by blast
qed

theorem same_pallet_different_bin_kept_witness:
  "keyOf (pallet_row ''PAL-001'' ''A-1'') \<noteq> keyOf (pallet_row ''PAL-001'' ''A-2'')
   \<and> pallet_row ''PAL-001'' ''A-1'' \<in> set (unique (deduplicateRows [pallet_row ''PAL-001'' ''A-1'', pallet_row ''PAL-001'' ''A-2'']))
   \<and> pallet_row ''PAL-001'' ''A-2'' \<in> set (unique (deduplicateRows [pallet_row ''PAL-001'' ''A-1'', pallet_row ''PAL-001'' ''A-2'']))"
proof -
  let ?rows = "[pallet_row ''PAL-001'' ''A-1'', pallet_row ''PAL-001'' ''A-2'']"
  have wk: "\<forall>r \<in> set ?rows. well_keyed r" by (simp add: well_keyed_def pallet_row_def)
  have i: "0 < length ?rows" and j: "1 < length ?rows" by simp_all
  have pal: "(?rows ! 0) ''PalletID'' = (?rows ! 1) ''PalletID''" by (simp add: pallet_row_def)
  have bin: "(?rows ! 0) ''Bin'' \<noteq> (?rows ! 1) ''Bin''" by (simp add: pallet_row_def)
  have others: "\<forall>k < length ?rows. k \<noteq> 0 \<and> k \<noteq> 1 \<longrightarrow>
       pair_of (?rows ! k) \<noteq> pair_of (?rows ! 0) \<and> pair_of (?rows ! k) \<noteq> pair_of (?rows ! 1)"
    by (simp add: less_Suc_eq)
  from same_pallet_different_bin_kept[OF wk i j pal bin others]
  show ?thesis by simp
qed

text \<open>
  C3, as the claim states it, fails on raw rows: the key is a concatenation, so a vertical
  bar in a cell moves the boundary. The second and third rows of \<open>split_rows\<close> have
  the same PalletID and different bins, no other row has the pair of either, and the second
  is rejected as a duplicate of the first.
\<close>

theorem bar_in_cell_counterexample:
  "(split_rows ! 1) ''PalletID'' = (split_rows ! 2) ''PalletID''
   \<and> (split_rows ! 1) ''Bin'' \<noteq> (split_rows ! 2) ''Bin''
   \<and> pair_of (split_rows ! 0) \<noteq> pair_of (split_rows ! 1)
   \<and> pair_of (split_rows ! 0) \<noteq> pair_of (split_rows ! 2)
   \<and> split_rows ! 1 \<notin> set (unique (deduplicateRows split_rows))
   \<and> duplicates (deduplicateRows split_rows) = [annotate (split_rows ! 1)]"
proof -
  have ne: "pallet_row ''X'' ''Y|Z'' \<noteq> pallet_row ''X|Y'' ''Z''" "pallet_row ''X'' ''Y|Z'' \<noteq> pallet_row ''X'' ''W''"
    by (auto simp: pallet_row_def fun_eq_iff)
  show ?thesis
    using ne by (simp add: dedup_split_rows) (simp add: split_rows_def pallet_row_def pair_of_def)
qed

section \<open>Rounding of particular values\<close>

lemma fl_half: "fl (1 / 2) = Fin (1 / 2)"
  unfolding fl_def Let_def
  apply (simp add: ilog2_def halvings.simps doublings.simps)
  apply (simp add: pow2_def round_even_def Let_def floor_rat_numeral)
  done

lemma fl_fifty: "fl 50 = Fin 50"
  unfolding fl_def Let_def
  apply (simp add: ilog2_def halvings.simps doublings.simps)
  apply (simp add: pow2_def round_even_def Let_def floor_rat_numeral)
  done

text \<open>Five of ten is rendered as \<open>50.00\<close>, as the repository's test expects.\<close>

lemma percent_half: "toFixed 2 (js_times (js_div 5 10) 100) = Digits ''50.00''"
proof -
  have "js_div 5 10 = Fin (1 / 2)" by (simp add: js_div_def fl_half)
  then have "js_times (js_div 5 10) 100 = Fin 50" by (simp add: js_times_def fl_fifty)
  moreover have "show_nat 5000 = ''5000''" by (simp add: show_nat.simps digit_char_def)
  ultimately show ?thesis
    by (simp add: toFixed_def Let_def floor_rat_numeral)
qed

section \<open>Properties of the variance statistics and the session metrics\<close>

lemma js_pos_num: "js_pos (num n) \<longleftrightarrow> 0 < n"
  by (simp add: js_pos_def num_def)

lemma js_plus_num: "\<bar>a + b\<bar> \<le> 2 ^ 53 \<Longrightarrow> js_plus (num a) (num b) = num (a + b)"
  using fl_of_int[of "a + b"] by (simp add: js_plus_def num_def)

lemma js_minus_num: "\<bar>a - b\<bar> \<le> 2 ^ 53 \<Longrightarrow> js_minus (num a) (num b) = num (a - b)"
  using fl_of_int[of "a - b"] by (simp add: js_minus_def js_neg_def js_plus_def num_def)

lemma js_rem_num:
  assumes "0 \<le> s"
  shows "js_rem (num s) k = num (s mod int k)"
proof -
  have "\<lfloor>(of_int s :: rat) / of_nat k\<rfloor> = s div int k"
    using floor_divide_of_int_eq[of s "int k", where ?'a = rat] by simp
  then have "(of_int s :: rat) - of_nat k * of_int \<lfloor>(of_int s :: rat) / of_nat k\<rfloor>
      = of_int (s - int k * (s div int k))"
    by simp
  also have "s - int k * (s div int k) = s mod int k" by (simp add: minus_mult_div_eq_mod)
  finally show ?thesis using assms by (simp add: js_rem_def num_def)
qed

lemma js_floor_over:
  assumes "0 \<le> s" "0 < k" "k \<le> 3600" "s < 2 ^ 42 * int k"
  shows "js_floor (js_over (num s) k) = num (s div int k)"
proof -
  define x :: rat where "x = of_int s / of_nat k"
  have k0: "0 < (of_nat k :: rat)" using assms(2) by simp
  have fx: "\<lfloor>x\<rfloor> = s div int k"
    using floor_divide_of_int_eq[of s "int k", where ?'a = rat] by (simp add: x_def)
  have x0: "0 \<le> x" using assms(1) by (simp add: x_def)
  have "(of_int s :: rat) < of_int (2 ^ 42 * int k)" using assms(4) by (simp only: of_int_less_iff)
  then have x42: "x < 2 ^ 42" using k0 by (simp add: x_def field_simps)
  have "of_int (int k * (s div int k) + s mod int k) = (of_int s :: rat)"
    by (simp only: mult_div_mod_eq)
  then have "(of_int s :: rat) = of_nat k * of_int (s div int k) + of_int (s mod int k)"
    by (simp only: of_int_add of_int_mult of_int_of_nat_eq)
  then have sx: "x = of_int (s div int k) + of_int (s mod int k) / of_nat k"
    using k0 by (simp add: x_def field_simps)
  have "s mod int k \<le> int k - 1" using assms(2) pos_mod_bound[of "int k" s] by simp
  then have "(of_int (s mod int k) :: rat) \<le> of_int (int k - 1)" by (simp only: of_int_le_iff)
  then have "of_int (s mod int k) / of_nat k \<le> (of_nat k - 1) / (of_nat k :: rat)"
    using k0 by (simp add: divide_right_mono)
  also have "\<dots> = 1 - 1 / of_nat k" using k0 by (simp add: field_simps)
  also have "\<dots> \<le> 1 - 1 / 3600"
  proof -
    have "(of_nat k :: rat) \<le> of_nat 3600" using assms(3) by (simp only: of_nat_le_iff)
    then have "1 / 3600 \<le> 1 / (of_nat k :: rat)" using k0 by (simp add: field_simps)
    then show ?thesis by simp
  qed
  finally have "x \<le> of_int \<lfloor>x\<rfloor> + 1 - 1 / 3600" unfolding fx using sx by simp
  from fl_floor[OF x0 x42 this] obtain q where "fl x = Fin q" "\<lfloor>q\<rfloor> = \<lfloor>x\<rfloor>" by blast
  then show ?thesis
    by (simp add: js_over_def js_floor_def num_def x_def[symmetric] fx)
qed

lemma formatDuration_num:
  assumes "0 \<le> s" "s \<le> 2 ^ 53 - 1"
  shows "formatDuration (num s) =
     (if 0 < s div 3600
      then show_int (s div 3600) @ ''h '' @ show_int (s mod 3600 div 60) @ ''m '' @ show_int (s mod 60) @ ''s''
      else if 0 < s mod 3600 div 60 then show_int (s mod 3600 div 60) @ ''m '' @ show_int (s mod 60) @ ''s''
      else show_int (s mod 60) @ ''s'')"
proof -
  have h: "js_floor (js_over (num s) 3600) = num (s div 3600)"
    using js_floor_over[of s 3600] assms by simp
  have r: "js_rem (num s) 3600 = num (s mod 3600)" "js_rem (num s) 60 = num (s mod 60)"
    using js_rem_num[OF assms(1), of 3600] js_rem_num[OF assms(1), of 60] by simp_all
  have m: "js_floor (js_over (num (s mod 3600)) 60) = num (s mod 3600 div 60)"
    using js_floor_over[of "s mod 3600" 60] by simp
  have "0 \<le> s div 3600" using assms(1) by (simp add: pos_imp_zdiv_nonneg_iff)
  moreover have "s = 3600 * (s div 3600) + s mod 3600" "0 \<le> s mod 3600" by simp_all
  ultimately have "0 \<le> s div 3600" "s div 3600 \<le> s" by linarith+
  then have 1: "number_to_string (num (s div 3600)) = show_int (s div 3600)"
    using assms(2) by (intro number_to_string_int) simp
  have "0 \<le> s mod 3600 div 60" by (simp add: pos_imp_zdiv_nonneg_iff)
  moreover have "s mod 3600 = 60 * (s mod 3600 div 60) + s mod 3600 mod 60" "0 \<le> s mod 3600 mod 60"
    by simp_all
  moreover have "s mod 3600 < 3600" by simp
  ultimately have "0 \<le> s mod 3600 div 60" "s mod 3600 div 60 \<le> 3600" by linarith+
  then have 2: "number_to_string (num (s mod 3600 div 60)) = show_int (s mod 3600 div 60)"
    by (intro number_to_string_int) simp
  have "0 \<le> s mod 60" "s mod 60 < 60" by simp_all
  then have 3: "number_to_string (num (s mod 60)) = show_int (s mod 60)"
    by (intro number_to_string_int) simp
  show ?thesis
    unfolding formatDuration_def Let_def h r m js_pos_num 1 2 3 ..
qed

lemma fl_tie: "fl 9007199254740993 = Fin 9007199254740992"
proof -
  have "fl 9007199254740993
      = Fin (of_int (round_even (9007199254740993 / 2 powi (53 - 52))) * 2 powi (53 - 52))"
    by (rule fl_normal) simp_all
  also have "\<dots> = Fin 9007199254740992"
    by (simp add: round_even_def Let_def floor_rat_numeral)
  finally show ?thesis .
qed

lemma tally_eq:
  "tally st a =
     \<lparr>totalActions = totalActions st,
      totalVariance = js_plus (totalVariance st) (num (variance a)),
      positiveVariances = positiveVariances st @ (if variance a > 0 then [a] else []),
      negativeVariances = negativeVariances st @ (if variance a < 0 then [a] else []),
      zeroVariances = zeroVariances st @ (if variance a = 0 then [a] else [])\<rparr>"
  by (simp add: tally_def Let_def)

lemma foldl_tally:
  "foldl tally st as =
     \<lparr>totalActions = totalActions st,
      totalVariance = foldl (\<lambda>t a. js_plus t (num (variance a))) (totalVariance st) as,
      positiveVariances = positiveVariances st @ filter (\<lambda>a. variance a > 0) as,
      negativeVariances = negativeVariances st @ filter (\<lambda>a. variance a < 0) as,
      zeroVariances = zeroVariances st @ filter (\<lambda>a. variance a = 0) as\<rparr>"
proof (induction as arbitrary: st)
  case Nil
  show ?case by simp
next
  case (Cons a as)
  have step: "foldl tally st (a # as) = foldl tally (tally st a) as" by simp
  show ?case
    unfolding step Cons.IH[of "tally st a"] by (simp add: tally_eq)
qed

lemma three_way_length:
  "length (filter (\<lambda>a. variance a > 0) as) + length (filter (\<lambda>a. variance a < 0) as)
     + length (filter (\<lambda>a. variance a = 0) as) = length as"
  by (induction as) auto

lemma calculateVarianceStats_eq:
  "calculateVarianceStats as =
     \<lparr>totalActions = length as,
      totalVariance = foldl (\<lambda>t a. js_plus t (num (variance a))) (num 0) as,
      positiveVariances = filter (\<lambda>a. variance a > 0) as,
      negativeVariances = filter (\<lambda>a. variance a < 0) as,
      zeroVariances = filter (\<lambda>a. variance a = 0) as,
      variance_stats.varianceCount = length (filter (\<lambda>a. variance a > 0) as) + length (filter (\<lambda>a. variance a < 0) as),
      accuracyPercentage =
        toFixed 2 (js_times (js_div (length (filter (\<lambda>a. variance a = 0) as)) (length as)) 100)\<rparr>"
  by (simp add: calculateVarianceStats_def foldl_tally Let_def)

text \<open>While the sums from the left stay safe, no addition rounds.\<close>

lemma safe_sums_exact:
  "sums_safe t (map variance as) \<Longrightarrow>
     foldl (\<lambda>t a. js_plus t (num (variance a))) (num t) as = num (t + sum_list (map variance as))"
proof (induction as arbitrary: t)
  case Nil
  show ?case by simp
next
  case (Cons a as)
  then have s: "safe (t + variance a)" and r: "sums_safe (t + variance a) (map variance as)"
    by simp_all
  have "\<bar>t + variance a\<bar> \<le> 2 ^ 53" using s by (simp add: safe_def)
  then have "js_plus (num t) (num (variance a)) = num (t + variance a)" by (rule js_plus_num)
  then show ?case using Cons.IH[OF r] by (simp add: add.assoc)
qed

text \<open>
  C7, as the code has it. For every list of actions the three buckets together hold as
  many actions as the list, the variance count is the number of positive plus the number of
  negative ones, and each bucket is the list filtered by the sign of the variance, in the
  order of the list. The total variance is the sum from the left with every addition
  rounded to a double; it is the signed arithmetic sum of the variances when all sums from
  the left are safe integers.
\<close>

theorem calculateVarianceStats_counts:
  "length (positiveVariances (calculateVarianceStats as))
     + length (negativeVariances (calculateVarianceStats as))
     + length (zeroVariances (calculateVarianceStats as)) = length as
   \<and> totalActions (calculateVarianceStats as) = length as
   \<and> variance_stats.varianceCount (calculateVarianceStats as)
       = length (positiveVariances (calculateVarianceStats as))
         + length (negativeVariances (calculateVarianceStats as))
   \<and> positiveVariances (calculateVarianceStats as) = filter (\<lambda>a. variance a > 0) as
   \<and> negativeVariances (calculateVarianceStats as) = filter (\<lambda>a. variance a < 0) as
   \<and> zeroVariances (calculateVarianceStats as) = filter (\<lambda>a. variance a = 0) as
   \<and> totalVariance (calculateVarianceStats as)
       = foldl (\<lambda>t a. js_plus t (num (variance a))) (num 0) as
   \<and> (sums_safe 0 (map variance as) \<longrightarrow>
        totalVariance (calculateVarianceStats as) = num (sum_list (map variance as)))"
  using safe_sums_exact[of 0 as]
  by (simp add: calculateVarianceStats_eq three_way_length)

theorem calculateVarianceStats_counts_witness:
  "totalVariance (calculateVarianceStats [sample_action 5, sample_action (- 35), sample_action 0]) = num (- 30)
   \<and> length (positiveVariances (calculateVarianceStats [sample_action 5, sample_action (- 35), sample_action 0])) = 1
   \<and> length (negativeVariances (calculateVarianceStats [sample_action 5, sample_action (- 35), sample_action 0])) = 1
   \<and> length (zeroVariances (calculateVarianceStats [sample_action 5, sample_action (- 35), sample_action 0])) = 1
   \<and> variance_stats.varianceCount (calculateVarianceStats [sample_action 5, sample_action (- 35), sample_action 0]) = 2"
proof -
  let ?as = "[sample_action 5, sample_action (- 35), sample_action 0]"
  have s: "sums_safe 0 (map variance ?as)" by (simp add: sample_action_def safe_def)
  have t: "sum_list (map variance ?as) = - 30" by (simp add: sample_action_def)
  have f: "filter (\<lambda>a. variance a > 0) ?as = [sample_action 5]"
    "filter (\<lambda>a. variance a < 0) ?as = [sample_action (- 35)]"
    "filter (\<lambda>a. variance a = 0) ?as = [sample_action 0]"
    by (simp_all add: sample_action_def)
  note c = calculateVarianceStats_counts[of ?as]
  from c s have tv: "totalVariance (calculateVarianceStats ?as) = num (sum_list (map variance ?as))"
    by blast
  from c have p: "positiveVariances (calculateVarianceStats ?as) = filter (\<lambda>a. variance a > 0) ?as"
    and n: "negativeVariances (calculateVarianceStats ?as) = filter (\<lambda>a. variance a < 0) ?as"
    and z: "zeroVariances (calculateVarianceStats ?as) = filter (\<lambda>a. variance a = 0) ?as"
    and vc: "variance_stats.varianceCount (calculateVarianceStats ?as)
       = length (positiveVariances (calculateVarianceStats ?as))
         + length (negativeVariances (calculateVarianceStats ?as))"
    by blast+
  show ?thesis unfolding vc tv p n z t f by simp
qed

text \<open>
  C7, as the claim states it, fails: the sum is accumulated in a double. The four
  variances of \<open>large_actions\<close> are safe integers with sum 2; the third addition gives
  \<open>2\<^sup>5\<^sup>3 + 1\<close>, which is rounded to \<open>2\<^sup>5\<^sup>3\<close>, and the total comes out as 1.
\<close>

theorem calculateVarianceStats_rounding_counterexample:
  "map variance large_actions = [9007199254740991, 1, 1, - 9007199254740991]
   \<and> safe 9007199254740991 \<and> safe 1 \<and> safe (- 9007199254740991)
   \<and> sum_list (map variance large_actions) = 2
   \<and> totalVariance (calculateVarianceStats large_actions) = num 1
   \<and> num 1 \<noteq> num 2"
proof -
  have 1: "js_plus (num 0) (num 9007199254740991) = num 9007199254740991"
    using js_plus_num[of 0 9007199254740991] by simp
  have 2: "js_plus (num 9007199254740991) (num 1) = num 9007199254740992"
    using js_plus_num[of 9007199254740991 1] by simp
  have 3: "js_plus (num 9007199254740992) (num 1) = num 9007199254740992"
    by (simp add: js_plus_def num_def fl_tie)
  have 4: "js_plus (num 9007199254740992) (num (- 9007199254740991)) = num 1"
    using js_plus_num[of 9007199254740992 "- 9007199254740991"] by simp
  have "totalVariance (calculateVarianceStats large_actions) = num 1"
    by (simp add: calculateVarianceStats_eq large_actions_def sample_action_def 1 2 3 4)
  then show ?thesis by (simp add: large_actions_def sample_action_def safe_def num_def)
qed

lemma js_div_zero: "js_div 0 0 = NaN" "0 < a \<Longrightarrow> js_div a 0 = PosInf"
  by (simp_all add: js_div_def)

lemma toFixed_special:
  "toFixed f (js_times NaN k) = Digits ''NaN''"
  "toFixed f (js_times PosInf k) = Digits ''Infinity''"
  by (simp_all add: toFixed_def js_times_def)

lemma fl_not_NaN: "fl x \<noteq> NaN"
  by (simp add: fl_def Let_def)

lemma js_div_NaN_iff: "js_div a b = NaN \<longleftrightarrow> a = 0 \<and> b = 0"
  by (simp add: js_div_def fl_not_NaN)

text \<open>
  C2, as the claim states it, fails: on the empty list nothing is raised and no guard
  stands before the division. The divisor \<open>totalActions\<close> is 0, the quotient 0 / 0 is
  not a number, and the accuracy percentage is the rendering of that quotient.
\<close>

theorem calculateVarianceStats_empty_counterexample:
  "accuracyPercentage (calculateVarianceStats [])
     = toFixed 2 (js_times (js_div (length (zeroVariances (calculateVarianceStats [])))
                                  (totalActions (calculateVarianceStats []))) 100)
   \<and> totalActions (calculateVarianceStats []) = 0
   \<and> js_div 0 0 = NaN
   \<and> accuracyPercentage (calculateVarianceStats []) = Digits ''NaN''"
  by (simp add: calculateVarianceStats_eq js_div_zero toFixed_special)

text \<open>
  C2, as the code has it. The empty list gives a result with no action, total 0, empty
  buckets and the accuracy percentage \<open>NaN\<close>. For every list the percentage is the
  rendering to two decimals of (number of zero variances / number of actions) * 100, with
  no guard, and the quotient is not a number exactly when the list is empty.
\<close>

theorem calculateVarianceStats_no_guard:
  "calculateVarianceStats [] =
     \<lparr>totalActions = 0, totalVariance = num 0, positiveVariances = [], negativeVariances = [],
      zeroVariances = [], variance_stats.varianceCount = 0, accuracyPercentage = Digits ''NaN''\<rparr>
   \<and> accuracyPercentage (calculateVarianceStats as)
       = toFixed 2 (js_times (js_div (length (zeroVariances (calculateVarianceStats as)))
                                    (totalActions (calculateVarianceStats as))) 100)
   \<and> (js_div (length (zeroVariances (calculateVarianceStats as)))
               (totalActions (calculateVarianceStats as)) = NaN \<longleftrightarrow> as = [])"
  by (auto simp: calculateVarianceStats_eq js_div_zero toFixed_special js_div_NaN_iff)

theorem calculateVarianceStats_no_guard_witness:
  "accuracyPercentage (calculateVarianceStats [sample_action 0, sample_action (- 35)]) = Digits ''50.00''
   \<and> js_div (length (zeroVariances (calculateVarianceStats [sample_action 0, sample_action (- 35)])))
        (totalActions (calculateVarianceStats [sample_action 0, sample_action (- 35)])) \<noteq> NaN"
proof -
  let ?as = "[sample_action 0, sample_action (- 35)]"
  have z: "length (zeroVariances (calculateVarianceStats ?as)) = 1"
    and t: "totalActions (calculateVarianceStats ?as) = 2"
    by (simp_all add: calculateVarianceStats_eq sample_action_def)
  have "js_div 1 2 = js_div 5 10" by (simp add: js_div_def)
  then have p: "toFixed 2 (js_times (js_div 1 2) 100) = Digits ''50.00''"
    by (simp add: percent_half)
  from calculateVarianceStats_no_guard[of ?as]
  have a: "accuracyPercentage (calculateVarianceStats ?as) = toFixed 2 (js_times (js_div 1 2) 100)"
    and n: "js_div 1 2 = NaN \<longleftrightarrow> ?as = []"
    unfolding z t by blast+
  from n have "js_div 1 2 \<noteq> NaN" by blast
  with a p show ?thesis unfolding z t by (simp only: simp_thms)
qed

lemma completion_eq:
  "completionPercentage (calculateSessionMetrics now s as)
     = toFixed 2 (js_times (js_div (length as) (session.totalPallets s)) 100)"
  by (simp add: calculateSessionMetrics_def Let_def)

text \<open>
  C8, as the code has it. The completion percentage is the rendering to two decimals of
  (number of actions / total pallets) * 100, and no guard stands before the division:
  with no pallet in scope the result is \<open>NaN\<close> for an empty action list and
  \<open>Infinity\<close> for any other; with pallets in scope the quotient is the rounded
  fraction.
\<close>

theorem calculateSessionMetrics_no_guard:
  "completionPercentage (calculateSessionMetrics now s as)
     = toFixed 2 (js_times (js_div (length as) (session.totalPallets s)) 100)
   \<and> (session.totalPallets s = 0 \<and> as = [] \<longrightarrow>
        completionPercentage (calculateSessionMetrics now s as) = Digits ''NaN'')
   \<and> (session.totalPallets s = 0 \<and> as \<noteq> [] \<longrightarrow>
        completionPercentage (calculateSessionMetrics now s as) = Digits ''Infinity'')
   \<and> (session.totalPallets s \<noteq> 0 \<longrightarrow>
        js_div (length as) (session.totalPallets s)
          = fl (of_nat (length as) / of_nat (session.totalPallets s)))"
  by (auto simp: completion_eq js_div_zero toFixed_special) (simp add: js_div_def)

theorem calculateSessionMetrics_no_guard_witness:
  "completionPercentage (calculateSessionMetrics 0 empty_session []) = Digits ''NaN''
   \<and> completionPercentage (calculateSessionMetrics 0 empty_session [sample_action 0]) = Digits ''Infinity''
   \<and> completionPercentage (calculateSessionMetrics 0 (empty_session\<lparr>session.totalPallets := 10\<rparr>)
         (replicate 5 (sample_action 0))) = Digits ''50.00''"
proof -
  have e: "session.totalPallets empty_session = 0" by (simp add: empty_session_def)
  have t: "session.totalPallets (empty_session\<lparr>session.totalPallets := 10\<rparr>) = 10" by simp
  have l: "length (replicate 5 (sample_action 0)) = 5" by simp
  from calculateSessionMetrics_no_guard[of 0 empty_session "[]"] e
  have 1: "completionPercentage (calculateSessionMetrics 0 empty_session []) = Digits ''NaN''"
    by blast
  from calculateSessionMetrics_no_guard[of 0 empty_session "[sample_action 0]"] e
  have 2: "completionPercentage (calculateSessionMetrics 0 empty_session [sample_action 0])
      = Digits ''Infinity''"
    by blast
  from calculateSessionMetrics_no_guard[of 0 "empty_session\<lparr>session.totalPallets := 10\<rparr>"
      "replicate 5 (sample_action 0)"]
  have 3: "completionPercentage (calculateSessionMetrics 0 (empty_session\<lparr>session.totalPallets := 10\<rparr>)
         (replicate 5 (sample_action 0))) = Digits ''50.00''"
    unfolding t l percent_half by blast
  from 1 2 3 show ?thesis by blast
qed

text \<open>
  C8, as the claim states it, fails: a session with no pallet in scope is not guarded. The
  percentage is \<open>NaN\<close> when nothing was counted and \<open>Infinity\<close> after one count.
\<close>

theorem calculateSessionMetrics_zero_pallets_counterexample:
  "session.totalPallets empty_session = 0
   \<and> completionPercentage (calculateSessionMetrics 0 empty_session []) = Digits ''NaN''
   \<and> completionPercentage (calculateSessionMetrics 0 empty_session [sample_action 0]) = Digits ''Infinity''"
  by (simp add: completion_eq empty_session_def js_div_zero toFixed_special)

section \<open>Properties of the duration format\<close>

lemma fl_hours: "fl (1000000000000000000000 / 3600) = Fin 277777777777777792"
proof -
  have "fl (1000000000000000000000 / 3600)
      = Fin (of_int (round_even ((1000000000000000000000 / 3600) / 2 powi (57 - 52))) * 2 powi (57 - 52))"
    by (rule fl_normal) simp_all
  also have "\<dots> = Fin 277777777777777792"
    by (simp add: round_even_def Let_def floor_rat_numeral)
  finally show ?thesis .
qed

lemma not_rounds: "1 \<le> v \<Longrightarrow> v / 2 ^ 53 < \<bar>v - a\<bar> \<Longrightarrow> (fl v = Fin a) = False"
  using fl_error[of v a] by auto

lemma upt18: "[1..<18] = [1, 2, 3, 4, 5, 6, 7, 8, 9, 10, 11, 12, 13, 14, 15, 16, 17::nat]"
  by (simp add: upt_rec)

lemma ilog10_hours: "ilog10 277777777777777792 = 17"
  by (simp add: ilog10_def tenths.simps)

lemma fl_hours_digits: "fl 277777777777777800 = Fin 277777777777777792"
proof -
  have "fl 277777777777777800
      = Fin (of_int (round_even (277777777777777800 / 2 powi (57 - 52))) * 2 powi (57 - 52))"
    by (rule fl_normal) simp_all
  also have "\<dots> = Fin 277777777777777792"
    by (simp add: round_even_def Let_def floor_rat_numeral)
  finally show ?thesis .
qed

lemma candidates_hours:
  "candidate 277777777777777792 17 1 = None"
  "candidate 277777777777777792 17 2 = None"
  "candidate 277777777777777792 17 3 = None"
  "candidate 277777777777777792 17 4 = None"
  "candidate 277777777777777792 17 5 = None"
  "candidate 277777777777777792 17 6 = None"
  "candidate 277777777777777792 17 7 = None"
  "candidate 277777777777777792 17 8 = None"
  "candidate 277777777777777792 17 9 = None"
  "candidate 277777777777777792 17 10 = None"
  "candidate 277777777777777792 17 11 = None"
  "candidate 277777777777777792 17 12 = None"
  "candidate 277777777777777792 17 13 = None"
  "candidate 277777777777777792 17 14 = None"
  "candidate 277777777777777792 17 15 = None"
  "candidate 277777777777777792 17 16 = Some 2777777777777778"
  unfolding candidate_def Let_def
  by (simp_all add: pow10_def floor_rat_numeral not_rounds fl_hours_digits)

lemma render_hours: "number_to_string (Fin 277777777777777792) = ''277777777777777800''"
proof -
  have f: "first_candidate 277777777777777792 17 [1..<18] = Some (2777777777777778, 16)"
    unfolding upt18 by (simp add: candidates_hours del: One_nat_def)
  have d: "show_nat 2777777777777778 = ''2777777777777778''"
    by (simp add: show_nat.simps digit_char_def)
  have s: "strip_zeros ''2777777777777778'' = ''2777777777777778''"
    by (simp add: strip_zeros_def)
  have l: "layout ''2777777777777778'' 18 = ''277777777777777800''"
    by (simp add: layout_def numeral_2_eq_2)
  have sh: "shortest 277777777777777792 17 = (2777777777777778, 16)"
    unfolding shortest_def f by simp
  have "render_pos 277777777777777792 = ''277777777777777800''"
    by (simp add: render_pos_def ilog10_hours sh d s l)
  then show ?thesis by (simp add: number_to_string_def)
qed

lemma formatDuration_large:
  "formatDuration (num 1000000000000000000000) = ''277777777777777800h 46m 40s''"
proof -
  have "js_over (num 1000000000000000000000) 3600 = fl (1000000000000000000000 / 3600)"
    by (simp only: js_over_def num_def jsnum.case of_int_numeral of_nat_numeral)
  then have h: "js_floor (js_over (num 1000000000000000000000) 3600) = Fin 277777777777777792"
    unfolding fl_hours by (simp add: js_floor_def)
  have r: "js_rem (num 1000000000000000000000) 3600 = num 2800"
    "js_rem (num 1000000000000000000000) 60 = num 40"
    using js_rem_num[of 1000000000000000000000 3600] js_rem_num[of 1000000000000000000000 60]
    by simp_all
  have m: "js_floor (js_over (num 2800) 60) = num 46"
    using js_floor_over[of 2800 60] by simp
  have p: "js_pos (Fin 277777777777777792)" by (simp add: js_pos_def)
  have d: "number_to_string (num 46) = ''46''" "number_to_string (num 40) = ''40''"
    by (simp_all add: number_to_string_int show_int_def show_nat.simps digit_char_def)
  show ?thesis
    unfolding formatDuration_def Let_def h r m by (simp add: p render_hours d)
qed


lemma duration_split: "(x::int) = 3600 * (x div 3600) + 60 * (x mod 3600 div 60) + x mod 60"
proof -
  have "x mod 60 = x mod 3600 mod 60" by (simp add: mod_mod_cancel)
  then show ?thesis by (simp add: mult_div_mod_eq)
qed

lemma duration_ranges: "0 \<le> (x::int) \<Longrightarrow> 0 \<le> x div 3600 \<and> 0 \<le> x mod 3600 div 60 \<and> x mod 3600 div 60 < 60 \<and> 0 \<le> x mod 60 \<and> x mod 60 < 60"
proof -
  assume "0 \<le> x"
  have "x mod 3600 \<le> 3599" using pos_mod_bound[of 3600 x] by simp
  from zdiv_mono1[OF this, of 60] have "x mod 3600 div 60 < 60" by simp
  then show ?thesis using \<open>0 \<le> x\<close> by (simp add: pos_imp_zdiv_nonneg_iff)
qed

lemma hours_pos: "0 \<le> (x::int) \<Longrightarrow> (0 < x div 3600 \<longleftrightarrow> 3600 \<le> x)"
  by (simp add: pos_imp_zdiv_pos_iff)

lemma minutes_pos: "0 \<le> (x::int) \<Longrightarrow> x < 3600 \<Longrightarrow> (0 < x mod 3600 div 60 \<longleftrightarrow> 60 \<le> x)"
  by (simp add: pos_imp_zdiv_pos_iff)

lemma show_int_examples:
  "show_int 45 = ''45''" "show_int 2 = ''2''" "show_int 5 = ''5''" "show_int 1 = ''1''"
  "show_int 0 = ''0''"
  by (simp_all add: show_int_def show_nat.simps digit_char_def)

lemma formatDuration_examples:
  "formatDuration (num 45) = ''45s''" "formatDuration (num 125) = ''2m 5s''"
  "formatDuration (num 3665) = ''1h 1m 5s''" "formatDuration (num 1) = ''1s''"
  "formatDuration (num 61) = ''1m 1s''"
  by (simp_all add: formatDuration_num show_int_examples)

text \<open>
  C9, as the code has it. For every number of seconds that is a non-negative safe integer
  the rendering is \<open><h>h <m>m <s>s\<close> with hours, minutes below 60 and seconds below 60
  that add up to the input; the hours are left out when they are 0, and the minutes too
  when both are 0. The seconds always stand. 45 gives \<open>45s\<close>, 125 gives \<open>2m 5s\<close>
  and 3665 gives \<open>1h 1m 5s\<close>.
\<close>

theorem formatDuration_units:
  fixes seconds :: int
  defines "h \<equiv> seconds div 3600" and "m \<equiv> seconds mod 3600 div 60" and "s \<equiv> seconds mod 60"
  assumes nonneg: "0 \<le> seconds" and safe: "seconds \<le> 2 ^ 53 - 1"
  shows "formatDuration (num seconds) =
           (if 3600 \<le> seconds then show_int h @ ''h '' @ show_int m @ ''m '' @ show_int s @ ''s''
            else if 60 \<le> seconds then show_int m @ ''m '' @ show_int s @ ''s''
            else show_int s @ ''s'')
       \<and> seconds = 3600 * h + 60 * m + s \<and> 0 \<le> h \<and> 0 \<le> m \<and> m < 60 \<and> 0 \<le> s \<and> s < 60
       \<and> formatDuration (num 45) = ''45s'' \<and> formatDuration (num 125) = ''2m 5s''
       \<and> formatDuration (num 3665) = ''1h 1m 5s''"
proof -
  have fmt: "formatDuration (num seconds) =
           (if 3600 \<le> seconds then show_int h @ ''h '' @ show_int m @ ''m '' @ show_int s @ ''s''
            else if 60 \<le> seconds then show_int m @ ''m '' @ show_int s @ ''s''
            else show_int s @ ''s'')"
  proof (cases "3600 \<le> seconds")
    case True
    then show ?thesis
      unfolding formatDuration_num[OF nonneg safe] using hours_pos[OF nonneg]
      by (simp add: h_def m_def s_def)
  next
    case False
    then show ?thesis
      unfolding formatDuration_num[OF nonneg safe] using hours_pos[OF nonneg] minutes_pos[OF nonneg]
      by (simp add: h_def m_def s_def)
  qed
  have dec: "seconds = 3600 * h + 60 * m + s"
    unfolding h_def m_def s_def by (rule duration_split)
  have rng: "0 \<le> h \<and> 0 \<le> m \<and> m < 60 \<and> 0 \<le> s \<and> s < 60"
    unfolding h_def m_def s_def by (rule duration_ranges[OF nonneg])
  show ?thesis using fmt dec rng formatDuration_examples(1-3) by blast
qed

theorem formatDuration_units_witness:
  "formatDuration (num 7384) = ''2h 3m 4s'' \<and> formatDuration (num 3600) = ''1h 0m 0s''
   \<and> formatDuration (num 59) = ''59s'' \<and> formatDuration (num 0) = ''0s''
   \<and> formatDuration (num (2 ^ 53 - 1)) = ''2501999792983h 36m 31s''"
proof -
  have d: "show_int 2 = ''2''" "show_int 3 = ''3''" "show_int 4 = ''4''" "show_int 1 = ''1''"
    "show_int 0 = ''0''" "show_int 59 = ''59''" "show_int 36 = ''36''" "show_int 31 = ''31''"
    "show_int 2501999792983 = ''2501999792983''"
    by (simp_all add: show_int_def show_nat.simps digit_char_def)
  have "(0::int) \<le> 7384 \<and> (7384::int) \<le> 2 ^ 53 - 1" "(0::int) \<le> 3600 \<and> (3600::int) \<le> 2 ^ 53 - 1"
    "(0::int) \<le> 59 \<and> (59::int) \<le> 2 ^ 53 - 1" "(0::int) \<le> 0 \<and> (0::int) \<le> 2 ^ 53 - 1"
    "(0::int) \<le> 2 ^ 53 - 1 \<and> (2 ^ 53 - 1 ::int) \<le> 2 ^ 53 - 1"
    by simp_all
  then have "formatDuration (num 7384) = ''2h 3m 4s''" "formatDuration (num 3600) = ''1h 0m 0s''"
    "formatDuration (num 59) = ''59s''" "formatDuration (num 0) = ''0s''"
    "formatDuration (num (2 ^ 53 - 1)) = ''2501999792983h 36m 31s''"
    using formatDuration_units[of 7384] formatDuration_units[of 3600] formatDuration_units[of 59]
      formatDuration_units[of 0] formatDuration_units[of "2 ^ 53 - 1"]
    by (simp_all add: d)
  then show ?thesis by blast
qed

text \<open>
  C9, as the claim states it, fails for large numbers of seconds: the hours are a double.
  \<open>10\<^sup>2\<^sup>1\<close> seconds are 277777777777777777 hours, 46 minutes and 40 seconds; the
  quotient is rounded to the double 277777777777777792, which is printed with its
  shortest digits.
\<close>

theorem formatDuration_large_counterexample:
  "formatDuration (num (10 ^ 21)) = ''277777777777777800h 46m 40s''
   \<and> (10 ^ 21 :: int) div 3600 = 277777777777777777
   \<and> show_int 277777777777777777 = ''277777777777777777''"
  using formatDuration_large
  by (simp add: show_int_def show_nat.simps digit_char_def)

section \<open>Properties of the functions on a store\<close>

text \<open>Writes at new addresses keep every object that was there before.\<close>

lemma prefix_update:
  assumes "prefix h0 h" "length h0 \<le> a"
  shows "prefix h0 (h[a := x])"
proof -
  obtain t where "h = h0 @ t" using assms(1) by (auto simp: prefix_def)
  then have "h[a := x] = h0 @ t[a - length h0 := x]"
    using assms(2) by (simp add: list_update_append)
  then show ?thesis by simp
qed

lemma prefix_push:
  "prefix h0 h \<Longrightarrow> length h0 \<le> a \<Longrightarrow> prefix h0 (push_str h a s)"
  "prefix h0 h \<Longrightarrow> length h0 \<le> a \<Longrightarrow> prefix h0 (push_ref h a r)"
  by (simp_all add: push_str_def push_ref_def prefix_update)

lemma foldl_invariant:
  assumes "\<And>h x. P h \<Longrightarrow> P (f h x)" "P h"
  shows "P (foldl f h xs)"
  using assms(2) by (induction xs arbitrary: h) (simp_all add: assms(1))

lemma filter_st_invariant:
  assumes step: "\<And>h x b h'. P h \<Longrightarrow> f h x = (b, h') \<Longrightarrow> P h'"
  shows "P h \<Longrightarrow> P (snd (filter_st f h xs))"
proof (induction xs arbitrary: h)
  case Nil
  then show ?case by simp
next
  case (Cons x xs)
  obtain b h1 where 1: "f h x = (b, h1)" by (cases "f h x")
  have "P (snd (filter_st f h1 xs))" using Cons.IH[OF step[OF Cons.prems 1]] .
  then show ?case by (auto simp: 1 split: prod.splits)
qed

lemma check_steps_frame:
  assumes "prefix h0 h" "length h0 \<le> errs"
  shows "prefix h0 (check_required_st row errs h col)"
    and "prefix h0 (check_quantity_st row errs h)"
    and "prefix h0 (check_expiry_st row errs h)"
  using assms
  by (simp_all add: check_required_st_def check_quantity_st_def check_expiry_st_def Let_def prefix_push)

lemma validateInventoryRow_st_frame: "prefix h (fst (validateInventoryRow_st h row))"
proof -
  let ?h2 = "h @ [Strs required, Strs []]"
  let ?errs = "Suc (length h)"
  have p2: "prefix h ?h2" and e: "length h \<le> ?errs" by simp_all
  let ?H = "check_expiry_st row ?errs (check_quantity_st row ?errs
      (foldl (check_required_st row ?errs) ?h2 (strs_at ?h2 (length h))))"
  have p3: "prefix h (foldl (check_required_st row ?errs) ?h2 cols)" for cols
    by (rule foldl_invariant[where P = "prefix h"]) (simp_all add: check_steps_frame)
  have p5: "prefix h ?H"
    by (intro check_steps_frame p3 e)
  have "fst (validateInventoryRow_st h row) = ?H @ [Validation (length (strs_at ?H ?errs) = 0) ?errs]"
    by (simp add: validateInventoryRow_st_def alloc_def Let_def)
  then show ?thesis using p5 by (simp only: prefix_prefix)
qed

lemma dedup_callback_st_frame:
  assumes "prefix h0 h" "length h0 \<le> seen" "length h0 \<le> dups" "dedup_callback_st seen dups h row = (b, h')"
  shows "prefix h0 h'"
  using assms
  by (auto simp: dedup_callback_st_def Let_def alloc_def prefix_update prefix_push
      split: if_splits)

lemma deduplicateRows_st_frame: "prefix h (fst (deduplicateRows_st h rows))"
proof -
  let ?h2 = "h @ [KeyMap Map.empty, Refs []]"
  have p2: "prefix h ?h2" by simp
  have "prefix h (snd (filter_st (dedup_callback_st (length h) (Suc (length h))) ?h2 xs))" for xs
    by (rule filter_st_invariant[where P = "prefix h", OF _ p2])
      (rule dedup_callback_st_frame[where seen = "length h" and dups = "Suc (length h)"], simp_all)
  then show ?thesis
    by (auto simp: deduplicateRows_st_def alloc_def split: prod.splits intro: prefix_prefix)
      (metis prefix_prefix snd_conv)
qed


lemma obj_at_update: "obj_at (h[a := x]) b = (if b = a \<and> a < length h then Some x else obj_at h b)"
  by (simp add: obj_at_def)

definition stats_inv :: "store \<Rightarrow> ref \<Rightarrow> ref \<Rightarrow> ref \<Rightarrow> ref \<Rightarrow> store \<Rightarrow> bool" where
  "stats_inv h0 stats p ng z h =
     (prefix h0 h \<and> (\<exists>n tv c ap. obj_at h stats = Some (Stats n tv p ng z c ap)))"

lemma tally_st_inv:
  assumes "stats_inv h0 stats p ng z h" "length h0 \<le> stats" "length h0 \<le> p" "length h0 \<le> ng"
    "length h0 \<le> z" "stats \<noteq> p" "stats \<noteq> ng" "stats \<noteq> z"
  shows "stats_inv h0 stats p ng z (tally_st stats h a)"
proof -
  obtain n tv c ap where o: "obj_at h stats = Some (Stats n tv p ng z c ap)" and pre: "prefix h0 h"
    using assms(1) by (auto simp: stats_inv_def)
  have l: "stats < length h" using o by (simp add: obj_at_def split: if_splits)
  let ?h1 = "h[stats := Stats n (js_plus tv (num (variance (action_at h a)))) p ng z c ap]"
  have p1: "prefix h0 ?h1" using pre assms(2) by (rule prefix_update)
  have o1: "obj_at ?h1 stats = Some (Stats n (js_plus tv (num (variance (action_at h a)))) p ng z c ap)"
    using l by (simp add: obj_at_update)
  have push: "stats_inv h0 stats p ng z (push_ref ?h1 q a)" if "q = p \<or> q = ng \<or> q = z" for q
  proof -
    have q: "length h0 \<le> q" "stats \<noteq> q" using that assms by auto
    show ?thesis
      unfolding stats_inv_def
      using prefix_push(2)[OF p1 q(1)] o1 q(2) by (auto simp: push_ref_def obj_at_update)
  qed
  have "tally_st stats h a = push_ref ?h1
      (if variance (action_at h a) > 0 then p else if variance (action_at h a) < 0 then ng else z) a"
    by (simp add: tally_st_def o Let_def)
  then show ?thesis using push by presburger
qed

lemma finish_stats_frame: "prefix h0 h \<Longrightarrow> length h0 \<le> stats \<Longrightarrow> prefix h0 (finish_stats h stats)"
  by (auto simp: finish_stats_def Let_def prefix_update split: option.splits obj.splits)

lemma calculateVarianceStats_st_frame: "prefix h (fst (calculateVarianceStats_st h acts))"
proof -
  let ?p = "length h" and ?ng = "Suc (length h)" and ?z = "Suc (Suc (length h))"
    and ?stats = "Suc (Suc (Suc (length h)))"
  let ?h4 = "h @ [Refs [], Refs [], Refs [], Stats (length (refs_at (h @ [Refs [], Refs [], Refs []]) acts)) (num 0) ?p ?ng ?z None None]"
  have i4: "stats_inv h ?stats ?p ?ng ?z ?h4"
    by (simp add: stats_inv_def obj_at_def nth_append)
  have "stats_inv h ?stats ?p ?ng ?z (foldl (tally_st ?stats) ?h4 xs)" for xs
    by (rule foldl_invariant[where P = "stats_inv h ?stats ?p ?ng ?z", OF _ i4])
      (rule tally_st_inv, simp_all)
  then have "prefix h (foldl (tally_st ?stats) ?h4 xs)" for xs
    by (simp add: stats_inv_def)
  then have "prefix h (finish_stats (foldl (tally_st ?stats) ?h4 xs) ?stats)" for xs
    by (rule finish_stats_frame) simp
  then show ?thesis
    by (simp add: calculateVarianceStats_st_def alloc_def Let_def)
qed

text \<open>The metrics function allocates two filtered arrays and its result, and writes nothing.\<close>

lemma calculateSessionMetrics_st_frame: "prefix h (fst (calculateSessionMetrics_st now h s acts))"
  by (simp add: calculateSessionMetrics_st_def alloc_def Let_def)

text \<open>With an end time the clock is not read; without one only the duration depends on it.\<close>

lemma calculateSessionMetrics_clock:
  "ended s \<Longrightarrow> calculateSessionMetrics now s as = calculateSessionMetrics now' s as"
  "(calculateSessionMetrics now s as)\<lparr>durationSeconds := num 0, durationFormatted := []\<rparr>
     = (calculateSessionMetrics now' s as)\<lparr>durationSeconds := num 0, durationFormatted := []\<rparr>"
  by (simp_all add: calculateSessionMetrics_def Let_def)

lemma calculateSessionMetrics_st_clock:
  "ended (session_at h s) \<Longrightarrow>
     calculateSessionMetrics_st now h s acts = calculateSessionMetrics_st now' h s acts"
  by (simp add: calculateSessionMetrics_st_def Let_def)

text \<open>
  C6, as the code has it. None of the four functions writes to an object that exists
  before the call: the store before the call is a prefix of the store after it, for every
  store and every argument, so the input row, row sequence, action list and session are
  unchanged. validateInventoryRow, deduplicateRows and calculateVarianceStats depend on
  their input alone. calculateSessionMetrics also reads the clock, but only for a
  session whose end time is falsy: with an end time two runs on equal inputs give equal
  outputs at any two times, and without one only the duration fields differ.
\<close>

theorem inputs_unchanged_and_clock:
  "prefix h (fst (validateInventoryRow_st h row))
   \<and> prefix h (fst (deduplicateRows_st h rows))
   \<and> prefix h (fst (calculateVarianceStats_st h acts))
   \<and> prefix h (fst (calculateSessionMetrics_st now h s acts))
   \<and> (ended (session_at h s) \<longrightarrow>
        calculateSessionMetrics_st now h s acts = calculateSessionMetrics_st now' h s acts)
   \<and> (ended sess \<longrightarrow> calculateSessionMetrics now sess as = calculateSessionMetrics now' sess as)
   \<and> (calculateSessionMetrics now sess as)\<lparr>durationSeconds := num 0, durationFormatted := []\<rparr>
       = (calculateSessionMetrics now' sess as)\<lparr>durationSeconds := num 0, durationFormatted := []\<rparr>"
  using validateInventoryRow_st_frame[of h row] deduplicateRows_st_frame[of h rows]
    calculateVarianceStats_st_frame[of h acts] calculateSessionMetrics_st_frame[of h now s acts]
    calculateSessionMetrics_st_clock[of h s now acts now']
    calculateSessionMetrics_clock[where s = sess and now = now and as = as and now' = now']
  by blast

theorem inputs_unchanged_and_clock_witness:
  "prefix sample_store (fst (validateInventoryRow_st sample_store 0))
   \<and> prefix sample_store (fst (deduplicateRows_st sample_store 2))
   \<and> prefix sample_store (fst (calculateVarianceStats_st sample_store 4))
   \<and> prefix sample_store (fst (calculateSessionMetrics_st 1000 sample_store 5 4))
   \<and> calculateSessionMetrics_st 1000 sample_store 5 4 = calculateSessionMetrics_st 61000 sample_store 5 4
   \<and> calculateSessionMetrics 1000 (empty_session\<lparr>session.endTime := Some 5000\<rparr>) []
       = calculateSessionMetrics 61000 (empty_session\<lparr>session.endTime := Some 5000\<rparr>) []"
proof -
  have e: "ended (session_at sample_store 5)" "ended (empty_session\<lparr>session.endTime := Some 5000\<rparr>)"
    by (simp_all add: ended_def session_at_def obj_at_def sample_store_def)
  from inputs_unchanged_and_clock[of sample_store 0 2 4 1000 5 61000
      "empty_session\<lparr>session.endTime := Some 5000\<rparr>" "[]"] e
  show ?thesis by blast
qed

text \<open>
  C6, as the claim states it, fails: two runs of calculateSessionMetrics on the same
  in-progress session and the same actions, one and sixty-one seconds after the start,
  give different results.
\<close>

theorem calculateSessionMetrics_clock_counterexample:
  "durationSeconds (calculateSessionMetrics 1000 empty_session []) = num 1
   \<and> durationSeconds (calculateSessionMetrics 61000 empty_session []) = num 61
   \<and> durationFormatted (calculateSessionMetrics 1000 empty_session []) = ''1s''
   \<and> durationFormatted (calculateSessionMetrics 61000 empty_session []) = ''1m 1s''
   \<and> calculateSessionMetrics 1000 empty_session [] \<noteq> calculateSessionMetrics 61000 empty_session []"
proof -
  have m: "js_minus (num 1000) (num 0) = num 1000" "js_minus (num 61000) (num 0) = num 61000"
    using js_minus_num[of 1000 0] js_minus_num[of 61000 0] by simp_all
  have s: "js_floor (js_over (num 1000) 1000) = num 1" "js_floor (js_over (num 61000) 1000) = num 61"
    using js_floor_over[of 1000 1000] js_floor_over[of 61000 1000] by simp_all
  have d: "durationSeconds (calculateSessionMetrics 1000 empty_session []) = num 1"
    "durationSeconds (calculateSessionMetrics 61000 empty_session []) = num 61"
    by (simp_all add: calculateSessionMetrics_def Let_def ended_def empty_session_def m s)
  have g: "durationFormatted (calculateSessionMetrics 1000 empty_session []) = ''1s''"
    "durationFormatted (calculateSessionMetrics 61000 empty_session []) = ''1m 1s''"
    by (simp_all add: calculateSessionMetrics_def Let_def ended_def empty_session_def m s
        formatDuration_examples)
  have "calculateSessionMetrics 1000 empty_session [] \<noteq> calculateSessionMetrics 61000 empty_session []"
  proof
    assume "calculateSessionMetrics 1000 empty_session [] = calculateSessionMetrics 61000 empty_session []"
    then have "durationSeconds (calculateSessionMetrics 1000 empty_session [])
        = durationSeconds (calculateSessionMetrics 61000 empty_session [])"
      by simp
    then show False unfolding d by (simp add: num_def)
  qed
  with d g show ?thesis by blast
qed

end
